theory Spec2Isabelle
  imports Main
begin

section \<open>Data model\<close>

text \<open>
  The three verdicts of \<^verbatim>\<open>approvalFromComments\<close>. The constants
  \<^verbatim>\<open>approvalStatusPending\<close>, \<^verbatim>\<open>approvalStatusApproved\<close> and
  \<^verbatim>\<open>approvalStatusDenied\<close> are used by \<^verbatim>\<open>approval.go\<close>; the enumeration has
  exactly these three members.
\<close>

datatype approvalStatus =
  approvalStatusPending | approvalStatusApproved | approvalStatusDenied

text \<open>An \<^verbatim>\<open>error\<close> value built by \<^verbatim>\<open>fmt.Errorf\<close>; \<open>None\<close> of
  \<open>error option\<close> is Go's \<^verbatim>\<open>nil\<close> error.\<close>

datatype error = Errorf string

text \<open>The only run-time panic the evaluation can raise: a store into a nil map.\<close>

datatype runtimeError = AssignmentToEntryInNilMap

text \<open>
  What a call of \<^verbatim>\<open>approvalFromComments\<close> does: it returns the triple
  (status, deployment names, error), or it panics. A nil slice and an empty slice are both
  the empty list.
\<close>

datatype outcome =
  Return approvalStatus "string list" "error option"
| Panic runtimeError

text \<open>
  The two go-github structures the function reads. Their fields are pointers; the getters
  \<^verbatim>\<open>GetLogin\<close> and \<^verbatim>\<open>GetBody\<close> return the empty string for a nil receiver or a
  nil field. The comments themselves are taken to be non-nil pointers, as the issue
  service delivers them.
\<close>

record github_User =
  Login :: "string option"

record github_IssueComment =
  User :: "github_User option"
  Body :: "string option"

definition GetLogin :: "github_User option \<Rightarrow> string" where
  "GetLogin u = (case u of None \<Rightarrow> [] | Some usr \<Rightarrow> (case Login usr of None \<Rightarrow> [] | Some l \<Rightarrow> l))"

definition GetBody :: "github_IssueComment \<Rightarrow> string" where
  "GetBody c = (case Body c of None \<Rightarrow> [] | Some b \<Rightarrow> b)"

definition approvedWords :: "string list" where
  "approvedWords = [''approved'', ''approve'', ''lgtm'', ''yes'']"

definition deniedWords :: "string list" where
  "deniedWords = [''denied'', ''deny'', ''no'']"


section \<open>The regular expressions of the classifier\<close>

text \<open>
  Strings are byte sequences, and Go's \<^verbatim>\<open>regexp\<close> reads them as UTF-8. The two
  patterns \<^verbatim>\<open>(?i)^w[.!]*\n*$\<close> and \<^verbatim>\<open>(?i)^w[.!]?$\<close> are a sequence of
  one-rune atoms, each taken once, at most once, or any number of times, anchored at both
  ends of the text (without the flag \<^verbatim>\<open>m\<close>, \<^verbatim>\<open>$\<close> is the end of the text only).

  Under the flag \<^verbatim>\<open>i\<close> a literal rune matches every rune of its orbit under
  Unicode simple case folding. For an ASCII letter that is the letter in both cases and,
  for \<^verbatim>\<open>k\<close> and \<^verbatim>\<open>s\<close>, one more rune: U+212A (KELVIN SIGN, bytes E2 84 AA) and
  U+017F (LATIN SMALL LETTER LONG S, bytes C5 BF). \<open>foldForms c\<close> lists the UTF-8
  encodings of the orbit of the ASCII rune \<open>c\<close>.
\<close>

definition newline :: char where
  "newline = CHR 0x0A"

definition lowerASCII :: string where
  "lowerASCII = ''abcdefghijklmnopqrstuvwxyz''"

definition upperASCII :: string where
  "upperASCII = ''ABCDEFGHIJKLMNOPQRSTUVWXYZ''"

definition otherCase :: "char \<Rightarrow> char option" where
  "otherCase c =
     (case map_of (zip lowerASCII upperASCII) c of
        Some d \<Rightarrow> Some d
      | None \<Rightarrow> map_of (zip upperASCII lowerASCII) c)"

definition foldForms :: "char \<Rightarrow> string list" where
  "foldForms c =
     [c] # (case otherCase c of None \<Rightarrow> [] | Some d \<Rightarrow> [[d]])
     @ (if c = CHR ''k'' \<or> c = CHR ''K'' then [[CHR 0xE2, CHR 0x84, CHR 0xAA]] else [])
     @ (if c = CHR ''s'' \<or> c = CHR ''S'' then [[CHR 0xC5, CHR 0xBF]] else [])"

datatype atom = Lit char | Class "char list"

datatype quant = One | ZeroOrOne | ZeroOrMore

type_synonym pattern = "(atom \<times> quant) list"

text \<open>\<open>matchAtom a s\<close> consumes one rune of \<open>s\<close> that \<open>a\<close> accepts and gives the rest.\<close>

fun matchAtom :: "atom \<Rightarrow> string \<Rightarrow> string option" where
  "matchAtom (Lit c) s =
     (case find (\<lambda>f. take (length f) s = f) (foldForms c) of
        None \<Rightarrow> None
      | Some f \<Rightarrow> Some (drop (length f) s))"
| "matchAtom (Class cs) [] = None"
| "matchAtom (Class cs) (x # s) = (if x \<in> set cs then Some s else None)"

text \<open>Does the whole text match the anchored pattern?\<close>

function matchHere :: "pattern \<Rightarrow> string \<Rightarrow> bool" where
  "matchHere [] s = (s = [])"
| "matchHere ((a, One) # ps) s =
     (case matchAtom a s of None \<Rightarrow> False | Some r \<Rightarrow> matchHere ps r)"
| "matchHere ((a, ZeroOrOne) # ps) s =
     ((case matchAtom a s of None \<Rightarrow> False | Some r \<Rightarrow> matchHere ps r) \<or> matchHere ps s)"
| "matchHere ((a, ZeroOrMore) # ps) s =
     ((case matchAtom a s of None \<Rightarrow> False | Some r \<Rightarrow> matchHere ((a, ZeroOrMore) # ps) r)
      \<or> matchHere ps s)"
  by pat_completeness auto
termination
proof -
  have nonempty: "f \<noteq> []" if "f \<in> set (foldForms c)" for f c
    using that by (auto simp: foldForms_def split: if_splits option.splits)
  have shorter: "length r < length s" if m: "matchAtom a s = Some r" for a s r
  proof (cases a)
    case (Lit c)
    with m obtain f where f: "find (\<lambda>f. take (length f) s = f) (foldForms c) = Some f"
      and r: "r = drop (length f) s"
      by (auto split: option.splits)
    from f have "f \<in> set (foldForms c)" and tk: "take (length f) s = f"
      by (auto simp: find_Some_iff)
    then have "f \<noteq> []" by (simp add: nonempty)
    with tk have "s \<noteq> []" by auto
    with \<open>f \<noteq> []\<close> r show ?thesis by (cases s) auto
  next
    case (Class cs)
    with m show ?thesis by (cases s) (auto split: if_splits)
  qed
  show ?thesis
    by (relation "measures [\<lambda>(ps, s). length s, \<lambda>(ps, s). length ps]")
       (auto dest: shorter)
qed

text \<open>
  \<^verbatim>\<open>regexp.MatchString\<close> returns an error only when the pattern does not compile;
  the patterns here are built from the fixed word lists and always compile.
\<close>

definition regexp_MatchString :: "pattern \<Rightarrow> string \<Rightarrow> bool \<times> error option" where
  "regexp_MatchString p s = (matchHere p s, None)"

definition approvedPattern :: "string \<Rightarrow> pattern" where
  "approvedPattern w =
     map (\<lambda>c. (Lit c, One)) w @ [(Class ''.!'', ZeroOrMore), (Class [newline], ZeroOrMore)]"

definition deniedPattern :: "string \<Rightarrow> pattern" where
  "deniedPattern w = map (\<lambda>c. (Lit c, One)) w @ [(Class ''.!'', ZeroOrOne)]"

fun isApprovedLoop :: "string list \<Rightarrow> string \<Rightarrow> bool \<times> error option" where
  "isApprovedLoop [] commentBody = (False, None)"
| "isApprovedLoop (approvedWord # rest) commentBody =
     (case regexp_MatchString (approvedPattern approvedWord) commentBody of
        (matched, err) \<Rightarrow>
          if err \<noteq> None then (False, err)
          else if matched then (True, None)
          else isApprovedLoop rest commentBody)"

definition isApproved :: "string \<Rightarrow> bool \<times> error option" where
  "isApproved commentBody = isApprovedLoop approvedWords commentBody"

fun isDeniedLoop :: "string list \<Rightarrow> string \<Rightarrow> bool \<times> error option" where
  "isDeniedLoop [] commentBody = (False, None)"
| "isDeniedLoop (deniedWord # rest) commentBody =
     (case regexp_MatchString (deniedPattern deniedWord) commentBody of
        (matched, err) \<Rightarrow>
          if err \<noteq> None then (False, err)
          else if matched then (True, None)
          else isDeniedLoop rest commentBody)"

definition isDenied :: "string \<Rightarrow> bool \<times> error option" where
  "isDenied commentBody = isDeniedLoop deniedWords commentBody"


section \<open>Deployment names in a comment body\<close>

text \<open>
  \<^verbatim>\<open>strings.Split(s, sep)\<close> for a separator of one byte: the pieces of \<open>s\<close>
  between the occurrences of \<open>sep\<close>, at least one piece.
\<close>

fun strings_Split :: "string \<Rightarrow> char \<Rightarrow> string list" where
  "strings_Split [] sep = [[]]"
| "strings_Split (c # s) sep =
     (if c = sep then [] # strings_Split s sep
      else (case strings_Split s sep of
              [] \<Rightarrow> [[c]]
            | p # ps \<Rightarrow> (c # p) # ps))"

text \<open>
  \<^verbatim>\<open>regexp.MustCompile(`\[(.*)\]`).FindStringSubmatch\<close>: the leftmost match, the
  group taken greedily. The dot accepts every rune but the newline, so a match starts at
  the first \<^verbatim>\<open>[\<close> that has a \<^verbatim>\<open>]\<close> after it on the same line, and the group runs
  to the last \<^verbatim>\<open>]\<close> of that line. The result is the whole match and the group, or
  nil (the empty list) when nothing matches.
\<close>

fun FindStringSubmatch :: "string \<Rightarrow> string list" where
  "FindStringSubmatch [] = []"
| "FindStringSubmatch (c # s) =
     (let line = takeWhile (\<lambda>x. x \<noteq> newline) s in
        if c = CHR ''['' \<and> CHR '']'' \<in> set line
        then (let g = rev (tl (dropWhile (\<lambda>x. x \<noteq> CHR '']'') (rev line)))
              in [c # g @ '']'', g])
        else FindStringSubmatch s)"

text \<open>
  A Go map of type \<^verbatim>\<open>map[string]bool\<close>: \<open>None\<close> is the nil map. Reading a nil map
  or a missing key gives the zero value \<^verbatim>\<open>false\<close>; a store into the nil map panics.
\<close>

type_synonym gomap = "(string \<rightharpoonup> bool) option"

definition mapassign :: "gomap \<Rightarrow> string \<Rightarrow> bool \<Rightarrow> runtimeError + gomap" where
  "mapassign m k v =
     (case m of
        None \<Rightarrow> Inl AssignmentToEntryInNilMap
      | Some f \<Rightarrow> Inr (Some (f(k \<mapsto> v))))"

definition mapaccess :: "gomap \<Rightarrow> string \<Rightarrow> bool" where
  "mapaccess m k =
     (case m of
        None \<Rightarrow> False
      | Some f \<Rightarrow> (case f k of None \<Rightarrow> False | Some b \<Rightarrow> b))"

text \<open>The loop of lines 118 to 120: \<^verbatim>\<open>validDeploymentNamesMap[v] = true\<close> for every
  configured name.\<close>

fun fillValidDeploymentNames :: "string list \<Rightarrow> gomap \<Rightarrow> runtimeError + gomap" where
  "fillValidDeploymentNames [] m = Inr m"
| "fillValidDeploymentNames (v # vs) m =
     (case mapassign m v True of
        Inl p \<Rightarrow> Inl p
      | Inr m' \<Rightarrow> fillValidDeploymentNames vs m')"

text \<open>The loop of lines 122 to 127: every name of the comment must be a configured one.\<close>

fun collectDeploymentNames :: "string list \<Rightarrow> gomap \<Rightarrow> string list \<Rightarrow> error + string list" where
  "collectDeploymentNames [] m bodyDeploymentNames = Inr bodyDeploymentNames"
| "collectDeploymentNames (v # vs) m bodyDeploymentNames =
     (if \<not> mapaccess m v then Inl (Errorf ''errors.deployment name is invalid'')
      else collectDeploymentNames vs m (bodyDeploymentNames @ [v]))"

text \<open>
  Lines 103 to 128 of \<^verbatim>\<open>approvalFromComments\<close>: either the function leaves
  (\<open>Inl\<close>), or the loop body goes on with the comment body cut before its first
  \<^verbatim>\<open>[\<close> and the names of the comment. \<^verbatim>\<open>validDeploymentNamesMap\<close> is declared
  and never made, so it is the nil map when the first loop stores into it.
\<close>

definition deploymentNamesBlock :: "string \<Rightarrow> string list \<Rightarrow> outcome + (string \<times> string list)" where
  "deploymentNamesBlock commentBody multipleDeploymentNames =
     (if CHR ''['' \<in> set commentBody \<and> length multipleDeploymentNames \<noteq> 0 then
        (let commentBodySplit = strings_Split commentBody (CHR ''['');
             deploymentNamesRaw = ''['' @ commentBodySplit ! 1;
             matches = FindStringSubmatch deploymentNamesRaw
         in if length matches \<noteq> 2
            then Inl (Return approvalStatusPending [] (Some (Errorf ''errors.comment by not valid'')))
            else (case fillValidDeploymentNames multipleDeploymentNames None of
                    Inl p \<Rightarrow> Inl (Panic p)
                  | Inr validDeploymentNamesMap \<Rightarrow>
                      (case collectDeploymentNames (strings_Split (matches ! 1) (CHR '','')) validDeploymentNamesMap [] of
                         Inl e \<Rightarrow> Inl (Return approvalStatusPending [] (Some e))
                       | Inr bodyDeploymentNames \<Rightarrow> Inr (commentBodySplit ! 0, bodyDeploymentNames))))
      else Inr (commentBody, []))"


section \<open>The aggregator\<close>

fun approversIndexLoop :: "nat \<Rightarrow> string list \<Rightarrow> string \<Rightarrow> int" where
  "approversIndexLoop idx [] name = - 1"
| "approversIndexLoop idx (approver # rest) name =
     (if approver = name then int idx else approversIndexLoop (Suc idx) rest name)"

definition approversIndex :: "string list \<Rightarrow> string \<Rightarrow> int" where
  "approversIndex approvers name = approversIndexLoop 0 approvers name"

text \<open>Go's \<^verbatim>\<open>int\<close> on a 64-bit platform: the value an unbounded integer wraps to.\<close>

definition wrap64 :: "int \<Rightarrow> int" where
  "wrap64 x = (x + 2 ^ 63) mod 2 ^ 64 - 2 ^ 63"

text \<open>What one turn of the loop over the comments does: go on with the remaining
  approvers, or leave the function.\<close>

datatype flow = Continue "string list" | Exit outcome

text \<open>
  The body of the loop, lines 95 to 149. \<open>minimumApprovals\<close> is the threshold after line
  90 to 92. Go's \<^verbatim>\<open>int\<close> has 64 bits; the comparison of line 135 is an equality with
  a length between 1 and \<open>length approvers\<close>, which wrapping the right-hand side cannot
  change for a threshold in the range of \<^verbatim>\<open>int\<close> (lemma
  \<open>quorum_test_does_not_wrap\<close> below), so the integers are unbounded here.
  Lines 138 and 139 overwrite the slot of the approver with the last slot and drop the last.
\<close>

definition loopBody ::
  "github_IssueComment \<Rightarrow> string list \<Rightarrow> string list \<Rightarrow> int \<Rightarrow> string list \<Rightarrow> flow" where
  "loopBody comment remainingApprovers approvers minimumApprovals multipleDeploymentNames =
     (let commentUser = GetLogin (User comment);
          approverIdx = approversIndex remainingApprovers commentUser
      in if approverIdx < 0 then Continue remainingApprovers
         else
           (case deploymentNamesBlock (GetBody comment) multipleDeploymentNames of
              Inl out \<Rightarrow> Exit out
            | Inr (commentBody, bodyDeploymentNames) \<Rightarrow>
                (case isApproved commentBody of
                   (isApprovalComment, err) \<Rightarrow>
                     if err \<noteq> None then Exit (Return approvalStatusPending [] err)
                     else if isApprovalComment then
                       (if int (length remainingApprovers) = int (length approvers) - minimumApprovals + 1
                        then Exit (Return approvalStatusApproved bodyDeploymentNames None)
                        else Continue
                          (take (length remainingApprovers - 1)
                             (remainingApprovers[nat approverIdx :=
                                remainingApprovers ! (length remainingApprovers - 1)])))
                     else
                       (case isDenied commentBody of
                          (isDenialComment, err') \<Rightarrow>
                            if err' \<noteq> None then Exit (Return approvalStatusPending [] err')
                            else if isDenialComment then Exit (Return approvalStatusDenied [] None)
                            else Continue remainingApprovers))))"

fun commentsLoop ::
  "github_IssueComment list \<Rightarrow> string list \<Rightarrow> string list \<Rightarrow> int \<Rightarrow> string list \<Rightarrow> outcome" where
  "commentsLoop [] remainingApprovers approvers minimumApprovals multipleDeploymentNames =
     Return approvalStatusPending [] None"
| "commentsLoop (comment # rest) remainingApprovers approvers minimumApprovals multipleDeploymentNames =
     (case loopBody comment remainingApprovers approvers minimumApprovals multipleDeploymentNames of
        Exit out \<Rightarrow> out
      | Continue remainingApprovers' \<Rightarrow>
          commentsLoop rest remainingApprovers' approvers minimumApprovals multipleDeploymentNames)"

definition approvalFromComments ::
  "github_IssueComment list \<Rightarrow> string list \<Rightarrow> int \<Rightarrow> string list \<Rightarrow> outcome" where
  "approvalFromComments comments approvers minimumApprovals multipleDeploymentNames =
     (let remainingApprovers = approvers;
          minimumApprovals' = (if minimumApprovals = 0 then int (length approvers) else minimumApprovals)
      in commentsLoop comments remainingApprovers approvers minimumApprovals' multipleDeploymentNames)"


section \<open>Notions used to state the properties\<close>

definition commentUser :: "github_IssueComment \<Rightarrow> string" where
  "commentUser comment = GetLogin (User comment)"

text \<open>A comment with the given author and body.\<close>

definition mkComment :: "string \<Rightarrow> string \<Rightarrow> github_IssueComment" where
  "mkComment login body = \<lparr>User = Some \<lparr>Login = Some login\<rparr>, Body = Some body\<rparr>"

definition approvalComment :: "github_IssueComment \<Rightarrow> bool" where
  "approvalComment comment = fst (isApproved (GetBody comment))"

definition denialComment :: "github_IssueComment \<Rightarrow> bool" where
  "denialComment comment = fst (isDenied (GetBody comment))"

text \<open>The threshold after lines 90 to 92.\<close>

definition threshold :: "string list \<Rightarrow> int \<Rightarrow> int" where
  "threshold approvers minimumApprovals =
     (if minimumApprovals = 0 then int (length approvers) else minimumApprovals)"

text \<open>
  The remaining approvers when the loop has gone over all of \<open>comments\<close>, and \<open>None\<close>
  when one of them made the function leave (a return or a panic).
\<close>

fun remainingAfter ::
  "github_IssueComment list \<Rightarrow> string list \<Rightarrow> string list \<Rightarrow> int \<Rightarrow> string list \<Rightarrow> string list option" where
  "remainingAfter [] remainingApprovers approvers minimumApprovals multipleDeploymentNames =
     Some remainingApprovers"
| "remainingAfter (comment # rest) remainingApprovers approvers minimumApprovals multipleDeploymentNames =
     (case loopBody comment remainingApprovers approvers minimumApprovals multipleDeploymentNames of
        Exit out \<Rightarrow> None
      | Continue remainingApprovers' \<Rightarrow>
          remainingAfter rest remainingApprovers' approvers minimumApprovals multipleDeploymentNames)"

definition remainingApprovers ::
  "github_IssueComment list \<Rightarrow> string list \<Rightarrow> int \<Rightarrow> string list \<Rightarrow> string list option" where
  "remainingApprovers comments approvers minimumApprovals multipleDeploymentNames =
     remainingAfter comments approvers approvers (threshold approvers minimumApprovals)
       multipleDeploymentNames"

text \<open>Lines 103 to 128 make the function leave on this body: with an error value or
  with the panic of the nil map.\<close>

definition deploymentParseFails :: "string \<Rightarrow> string list \<Rightarrow> bool" where
  "deploymentParseFails body multipleDeploymentNames =
     (case deploymentNamesBlock body multipleDeploymentNames of
        Inl out \<Rightarrow> True
      | Inr r \<Rightarrow> False)"

text \<open>The text that line 112 gives to the regular expression: the first \<^verbatim>\<open>[\<close> of
  the body and what follows it up to the next \<^verbatim>\<open>[\<close>.\<close>

definition bracketedPortion :: "string \<Rightarrow> string" where
  "bracketedPortion body = ''['' @ strings_Split body (CHR ''['') ! 1"

text \<open>The approval comments of members of \<open>approvers\<close>, in order.\<close>

definition approvalsBy :: "string list \<Rightarrow> github_IssueComment list \<Rightarrow> github_IssueComment list" where
  "approvalsBy approvers comments =
     filter (\<lambda>c. approvalComment c \<and> commentUser c \<in> set approvers) comments"

text \<open>The approvers with no approval comment among \<open>comments\<close>.\<close>

definition stillRemaining :: "string list \<Rightarrow> github_IssueComment list \<Rightarrow> string list" where
  "stillRemaining approvers comments =
     filter (\<lambda>a. \<not> list_ex (\<lambda>c. commentUser c = a \<and> approvalComment c) comments) approvers"

text \<open>
  Caseless matching as the Unicode standard defines it: two strings match when their case
  foldings are equal. The vocabulary is ASCII, so only the runes that fold to an ASCII
  letter matter: the capital ASCII letters, U+017F (bytes C5 BF, folds to \<^verbatim>\<open>s\<close>) and
  U+212A (bytes E2 84 AA, folds to \<^verbatim>\<open>k\<close>). Every other byte is kept.
\<close>

fun toCasefold :: "string \<Rightarrow> string" where
  "toCasefold [] = []"
| "toCasefold (c # s) =
     (if c = CHR 0xC5 \<and> take 1 s = [CHR 0xBF] then CHR ''s'' # toCasefold (drop 1 s)
      else if c = CHR 0xE2 \<and> take 2 s = [CHR 0x84, CHR 0xAA] then CHR ''k'' # toCasefold (drop 2 s)
      else (case map_of (zip upperASCII lowerASCII) c of None \<Rightarrow> c | Some d \<Rightarrow> d) # toCasefold s)"

definition caselessMatch :: "string \<Rightarrow> string \<Rightarrow> bool" where
  "caselessMatch u w = (toCasefold u = toCasefold w)"

text \<open>The bytes an atom can consume.\<close>

fun atomBytes :: "atom \<Rightarrow> char set" where
  "atomBytes (Lit c) = (\<Union>f\<in>set (foldForms c). set f)"
| "atomBytes (Class cs) = set cs"


text \<open>The bytes a body accepted by one of the two patterns is made of.\<close>

definition wordBytes :: "char set" where
  "wordBytes = set lowerASCII \<union> set upperASCII \<union>
     {CHR 0xE2, CHR 0x84, CHR 0xAA, CHR 0xC5, CHR 0xBF, CHR ''.'', CHR ''!'', newline}"


section \<open>The classifier: auxiliary facts\<close>

lemma foldForms_nonempty: "f \<in> set (foldForms c) \<Longrightarrow> f \<noteq> []"
  by (auto simp: foldForms_def split: if_splits option.splits)


lemma isApprovedLoop_eq:
  "isApprovedLoop ws b = ((\<exists>w\<in>set ws. matchHere (approvedPattern w) b), None)"
  by (induction ws) (auto simp: regexp_MatchString_def)

lemma isDeniedLoop_eq:
  "isDeniedLoop ws b = ((\<exists>w\<in>set ws. matchHere (deniedPattern w) b), None)"
  by (induction ws) (auto simp: regexp_MatchString_def)

lemma isApproved_eq:
  "isApproved b = ((\<exists>w\<in>set approvedWords. matchHere (approvedPattern w) b), None)"
  by (simp add: isApproved_def isApprovedLoop_eq)

lemma isDenied_eq:
  "isDenied b = ((\<exists>w\<in>set deniedWords. matchHere (deniedPattern w) b), None)"
  by (simp add: isDenied_def isDeniedLoop_eq)

lemma matchAtom_bytes:
  "matchAtom a s = Some r \<Longrightarrow> \<exists>f. s = f @ r \<and> f \<noteq> [] \<and> set f \<subseteq> atomBytes a"
proof (cases a)
  case (Lit c)
  assume "matchAtom a s = Some r"
  with Lit obtain f where f: "find (\<lambda>f. take (length f) s = f) (foldForms c) = Some f"
    and r: "r = drop (length f) s"
    by (auto split: option.splits)
  from f have fin: "f \<in> set (foldForms c)" and tk: "take (length f) s = f"
    by (auto simp: find_Some_iff)
  have "s = f @ r" using tk r by (metis append_take_drop_id)
  with fin Lit show ?thesis by (auto simp: foldForms_nonempty)
next
  case (Class cs)
  assume "matchAtom a s = Some r"
  with Class show ?thesis by (cases s) (auto split: if_splits)
qed

lemma matchHere_bytes:
  "matchHere p s \<Longrightarrow> set s \<subseteq> (\<Union>a\<in>fst ` set p. atomBytes a)"
proof (induction p s rule: matchHere.induct)
  case (1 s)
  then show ?case by simp
next
  case (2 a ps s)
  then obtain r where m: "matchAtom a s = Some r" and h: "matchHere ps r"
    by (auto split: option.splits)
  from matchAtom_bytes[OF m] obtain f where "s = f @ r" "set f \<subseteq> atomBytes a" by blast
  with "2.IH"[OF m h] show ?case by auto
next
  case (3 a ps s)
  show ?case
  proof (cases "matchHere ps s")
    case True
    with "3.IH"(2) show ?thesis by auto
  next
    case False
    with "3.prems" obtain r where m: "matchAtom a s = Some r" and h: "matchHere ps r"
      by (auto split: option.splits)
    from matchAtom_bytes[OF m] obtain f where "s = f @ r" "set f \<subseteq> atomBytes a" by blast
    with "3.IH"(1)[OF m h] show ?thesis by auto
  qed
next
  case (4 a ps s)
  show ?case
  proof (cases "matchHere ps s")
    case True
    with "4.IH"(2) show ?thesis by auto
  next
    case False
    with "4.prems" obtain r where m: "matchAtom a s = Some r"
      and h: "matchHere ((a, ZeroOrMore) # ps) r"
      by (auto split: option.splits)
    from matchAtom_bytes[OF m] obtain f where "s = f @ r" "set f \<subseteq> atomBytes a" by blast
    with "4.IH"(1)[OF m h] show ?thesis by auto
  qed
qed

lemma matchHere_first:
  "matchHere ((Lit c, One) # ps) s \<Longrightarrow> s \<noteq> [] \<and> hd s \<in> hd ` set (foldForms c)"
proof -
  assume "matchHere ((Lit c, One) # ps) s"
  then obtain r where m: "matchAtom (Lit c) s = Some r"
    by (auto split: option.splits)
  then obtain f where f: "find (\<lambda>f. take (length f) s = f) (foldForms c) = Some f"
    by (auto split: option.splits)
  from f have fin: "f \<in> set (foldForms c)" and tk: "take (length f) s = f"
    by (auto simp: find_Some_iff)
  from fin have ne: "f \<noteq> []" by (rule foldForms_nonempty)
  with tk have "s \<noteq> []" by auto
  moreover from ne tk have "hd s = hd f" by (metis hd_take length_greater_0_conv)
  ultimately show ?thesis using fin by auto
qed

lemma foldForms_lower:
  "c \<in> set lowerASCII \<Longrightarrow> \<exists>d. d \<in> set upperASCII \<and> d \<notin> {CHR 0xC5, CHR 0xE2} \<and> c \<notin> {CHR 0xC5, CHR 0xE2} \<and> d \<noteq> c \<and>
     map_of (zip upperASCII lowerASCII) d = Some c \<and> map_of (zip upperASCII lowerASCII) c = None \<and>
     foldForms c = [c] # [d] # (if c = CHR ''k'' then [[CHR 0xE2, CHR 0x84, CHR 0xAA]] else [])
       @ (if c = CHR ''s'' then [[CHR 0xC5, CHR 0xBF]] else [])"
  unfolding lowerASCII_def
  by (auto simp: foldForms_def otherCase_def lowerASCII_def upperASCII_def)

lemma bracket_not_letter:
  "CHR ''['' \<notin> set lowerASCII" "CHR ''['' \<notin> set upperASCII"
  by (simp_all add: lowerASCII_def upperASCII_def)

lemma lit_bytes_no_bracket:
  assumes "c \<in> set lowerASCII"
  shows "CHR ''['' \<notin> atomBytes (Lit c)"
proof -
  from foldForms_lower[OF assms] obtain d where d: "d \<in> set upperASCII"
    and ff: "foldForms c = [c] # [d] # (if c = CHR ''k'' then [[CHR 0xE2, CHR 0x84, CHR 0xAA]] else [])
       @ (if c = CHR ''s'' then [[CHR 0xC5, CHR 0xBF]] else [])"
    by blast
  from assms d bracket_not_letter have "CHR ''['' \<noteq> c" "CHR ''['' \<noteq> d" by auto
  with ff show ?thesis by (auto split: if_splits)
qed

lemma words_lower:
  "w \<in> set approvedWords \<Longrightarrow> set w \<subseteq> set lowerASCII"
  "w \<in> set deniedWords \<Longrightarrow> set w \<subseteq> set lowerASCII"
  by (auto simp: approvedWords_def deniedWords_def lowerASCII_def)

lemma approvedPattern_no_bracket:
  assumes "set w \<subseteq> set lowerASCII" "matchHere (approvedPattern w) b"
  shows "CHR ''['' \<notin> set b"
proof
  assume "CHR ''['' \<in> set b"
  with matchHere_bytes[OF assms(2)]
  have "CHR ''['' \<in> (\<Union>a\<in>fst ` set (approvedPattern w). atomBytes a)" by blast
  then obtain a where "a \<in> fst ` set (approvedPattern w)"
    and "CHR ''['' \<in> atomBytes a" by blast
  then show False using assms(1) lit_bytes_no_bracket
    by (auto simp: approvedPattern_def newline_def)
qed

lemma deniedPattern_no_bracket:
  assumes "set w \<subseteq> set lowerASCII" "matchHere (deniedPattern w) b"
  shows "CHR ''['' \<notin> set b"
proof
  assume "CHR ''['' \<in> set b"
  with matchHere_bytes[OF assms(2)]
  have "CHR ''['' \<in> (\<Union>a\<in>fst ` set (deniedPattern w). atomBytes a)" by blast
  then obtain a where "a \<in> fst ` set (deniedPattern w)"
    and "CHR ''['' \<in> atomBytes a" by blast
  then show False using assms(1) lit_bytes_no_bracket
    by (auto simp: deniedPattern_def)
qed

lemma approved_no_bracket: "fst (isApproved b) \<Longrightarrow> CHR ''['' \<notin> set b"
  using approvedPattern_no_bracket words_lower(1) by (auto simp: isApproved_eq)

lemma denied_no_bracket: "fst (isDenied b) \<Longrightarrow> CHR ''['' \<notin> set b"
  using deniedPattern_no_bracket words_lower(2) by (auto simp: isDenied_eq)

lemma approved_first:
  assumes "fst (isApproved b)"
  shows "b \<noteq> [] \<and> hd b \<in> set ''aAlLyY''"
proof -
  from assms obtain w where w: "w \<in> set approvedWords" and m: "matchHere (approvedPattern w) b"
    by (auto simp: isApproved_eq)
  from w obtain c t where wc: "w = c # t" and c: "c \<in> set ''aly''"
    by (auto simp: approvedWords_def)
  from m wc have "matchHere ((Lit c, One) # (map (\<lambda>c. (Lit c, One)) t @ [(Class ''.!'', ZeroOrMore), (Class [newline], ZeroOrMore)])) b"
    by (simp add: approvedPattern_def)
  from matchHere_first[OF this] have "b \<noteq> []" and "hd b \<in> hd ` set (foldForms c)" by auto
  with c show ?thesis
    by (auto simp: foldForms_def otherCase_def lowerASCII_def upperASCII_def)
qed

lemma denied_first:
  assumes "fst (isDenied b)"
  shows "b \<noteq> [] \<and> hd b \<in> set ''dDnN''"
proof -
  from assms obtain w where w: "w \<in> set deniedWords" and m: "matchHere (deniedPattern w) b"
    by (auto simp: isDenied_eq)
  from w obtain c t where wc: "w = c # t" and c: "c \<in> set ''dn''"
    by (auto simp: deniedWords_def)
  from m wc have "matchHere ((Lit c, One) # (map (\<lambda>c. (Lit c, One)) t @ [(Class ''.!'', ZeroOrOne)])) b"
    by (simp add: deniedPattern_def)
  from matchHere_first[OF this] have "b \<noteq> []" and "hd b \<in> hd ` set (foldForms c)" by auto
  with c show ?thesis
    by (auto simp: foldForms_def otherCase_def lowerASCII_def upperASCII_def)
qed

lemma denied_not_approved: "fst (isDenied b) \<Longrightarrow> \<not> fst (isApproved b)"
  using approved_first[of b] denied_first[of b] by auto

lemma isApproved_snd: "snd (isApproved b) = None"
  by (simp add: isApproved_eq)

lemma isDenied_snd: "snd (isDenied b) = None"
  by (simp add: isDenied_eq)

text \<open>The literals of a pattern, read backwards through the case folding.\<close>

lemma upper_lower_table:
  "list_all (\<lambda>(u, l). otherCase l = Some u) (zip upperASCII lowerASCII)"
  by code_simp

lemma upper_of_lower:
  assumes "map_of (zip upperASCII lowerASCII) x = Some c"
  shows "otherCase c = Some x"
proof -
  from assms have "(x, c) \<in> set (zip upperASCII lowerASCII)" by (rule map_of_SomeD)
  with upper_lower_table show ?thesis
    unfolding list_all_iff by blast
qed

lemma matchAtom_Lit_iff:
  assumes "c \<in> set lowerASCII"
  shows "matchAtom (Lit c) s = Some r \<longleftrightarrow> (\<exists>f\<in>set (foldForms c). s = f @ r)"
proof
  assume "matchAtom (Lit c) s = Some r"
  then obtain f where f: "find (\<lambda>f. take (length f) s = f) (foldForms c) = Some f"
    and r: "r = drop (length f) s"
    by (auto split: option.splits)
  from f have "f \<in> set (foldForms c)" and "take (length f) s = f"
    by (auto simp: find_Some_iff)
  with r show "\<exists>f\<in>set (foldForms c). s = f @ r" by (metis append_take_drop_id)
next
  assume "\<exists>f\<in>set (foldForms c). s = f @ r"
  then obtain f where fin: "f \<in> set (foldForms c)" and s: "s = f @ r" by blast
  from foldForms_lower[OF assms] obtain d where d: "d \<notin> {CHR 0xC5, CHR 0xE2}"
    "c \<notin> {CHR 0xC5, CHR 0xE2}" "d \<noteq> c"
    and ff: "foldForms c = [c] # [d] # (if c = CHR ''k'' then [[CHR 0xE2, CHR 0x84, CHR 0xAA]] else [])
       @ (if c = CHR ''s'' then [[CHR 0xC5, CHR 0xBF]] else [])"
    by blast
  from fin ff consider "f = [c]" | "f = [d]" | "c = CHR ''k''" "f = [CHR 0xE2, CHR 0x84, CHR 0xAA]"
    | "c = CHR ''s''" "f = [CHR 0xC5, CHR 0xBF]"
    by (auto split: if_splits)
  then show "matchAtom (Lit c) s = Some r"
  proof cases
    case 1
    with s ff show ?thesis by simp
  next
    case 2
    with s ff d show ?thesis by simp
  next
    case 3
    with s ff d show ?thesis by auto
  next
    case 4
    with s ff d show ?thesis by auto
  qed
qed

lemma toCasefold_form:
  assumes "c \<in> set lowerASCII" "f \<in> set (foldForms c)"
  shows "toCasefold (f @ t) = c # toCasefold t"
proof -
  from foldForms_lower[OF assms(1)] obtain d where d: "d \<notin> {CHR 0xC5, CHR 0xE2}"
    "c \<notin> {CHR 0xC5, CHR 0xE2}"
    and up: "map_of (zip upperASCII lowerASCII) d = Some c"
      "map_of (zip upperASCII lowerASCII) c = None"
    and ff: "foldForms c = [c] # [d] # (if c = CHR ''k'' then [[CHR 0xE2, CHR 0x84, CHR 0xAA]] else [])
       @ (if c = CHR ''s'' then [[CHR 0xC5, CHR 0xBF]] else [])"
    by blast
  from assms(2) ff consider "f = [c]" | "f = [d]" | "c = CHR ''k''" "f = [CHR 0xE2, CHR 0x84, CHR 0xAA]"
    | "c = CHR ''s''" "f = [CHR 0xC5, CHR 0xBF]"
    by (auto split: if_splits)
  then show ?thesis
  proof cases
    case 1
    with d up show ?thesis by simp
  next
    case 2
    with d up show ?thesis by simp
  next
    case 3
    then show ?thesis by simp
  next
    case 4
    then show ?thesis by simp
  qed
qed

lemma toCasefold_inv:
  assumes "c \<in> set lowerASCII" "toCasefold u = c # w"
  shows "\<exists>f\<in>set (foldForms c). \<exists>u'. u = f @ u' \<and> toCasefold u' = w"
proof (cases u)
  case Nil
  with assms(2) show ?thesis by simp
next
  case (Cons x u0)
  show ?thesis
  proof (cases "x = CHR 0xC5 \<and> take 1 u0 = [CHR 0xBF]")
    case True
    then have u0: "u0 = CHR 0xBF # drop 1 u0" by (metis append_take_drop_id append_Cons append_Nil)
    from True assms(2) Cons have "c = CHR ''s''" "toCasefold (drop 1 u0) = w" by simp_all
    moreover have "[CHR 0xC5, CHR 0xBF] \<in> set (foldForms (CHR ''s''))"
      by (simp add: foldForms_def)
    moreover have "u = [CHR 0xC5, CHR 0xBF] @ drop 1 u0" using Cons True u0 by simp
    ultimately show ?thesis by blast
  next
    case notS: False
    show ?thesis
    proof (cases "x = CHR 0xE2 \<and> take 2 u0 = [CHR 0x84, CHR 0xAA]")
      case True
      then have u0: "u0 = [CHR 0x84, CHR 0xAA] @ drop 2 u0" by (metis append_take_drop_id)
      from True assms(2) Cons have "c = CHR ''k''" "toCasefold (drop 2 u0) = w" by simp_all
      moreover have "[CHR 0xE2, CHR 0x84, CHR 0xAA] \<in> set (foldForms (CHR ''k''))"
        by (simp add: foldForms_def)
      moreover have "u = [CHR 0xE2, CHR 0x84, CHR 0xAA] @ drop 2 u0" using Cons True u0 by simp
      ultimately show ?thesis by blast
    next
      case notK: False
      from notS notK assms(2) Cons
      have c: "c = (case map_of (zip upperASCII lowerASCII) x of None \<Rightarrow> x | Some d \<Rightarrow> d)"
        and w: "toCasefold u0 = w" by (simp_all split: if_splits)
      have "[x] \<in> set (foldForms c)"
      proof (cases "map_of (zip upperASCII lowerASCII) x")
        case None
        with c show ?thesis by (simp add: foldForms_def)
      next
        case (Some d)
        with c have "map_of (zip upperASCII lowerASCII) x = Some c" by simp
        from upper_of_lower[OF this] show ?thesis by (simp add: foldForms_def)
      qed
      with Cons w show ?thesis by (intro bexI[of _ "[x]"] exI[of _ u0]) simp_all
    qed
  qed
qed

lemma toCasefold_Nil_iff: "toCasefold u = [] \<longleftrightarrow> u = []"
  by (cases u) (simp_all split: if_splits)

lemma matchHere_literals:
  assumes "set w \<subseteq> set lowerASCII"
  shows "matchHere (map (\<lambda>c. (Lit c, One)) w @ rest) s \<longleftrightarrow>
         (\<exists>u r. s = u @ r \<and> toCasefold u = w \<and> matchHere rest r)"
  using assms
proof (induction w arbitrary: s)
  case Nil
  show ?case by (auto simp: toCasefold_Nil_iff)
next
  case (Cons c w)
  then have c: "c \<in> set lowerASCII" and w: "set w \<subseteq> set lowerASCII" by auto
  note IH = Cons.IH[OF w]
  show ?case
  proof
    assume "matchHere (map (\<lambda>c. (Lit c, One)) (c # w) @ rest) s"
    then obtain r1 where m: "matchAtom (Lit c) s = Some r1"
      and h: "matchHere (map (\<lambda>c. (Lit c, One)) w @ rest) r1"
      by (auto split: option.splits)
    from m obtain f where f: "f \<in> set (foldForms c)" "s = f @ r1"
      using matchAtom_Lit_iff[OF c] by blast
    from h IH obtain u r where ur: "r1 = u @ r" "toCasefold u = w" "matchHere rest r" by blast
    from toCasefold_form[OF c f(1), of u] ur(2) have "toCasefold (f @ u) = c # w" by simp
    with f(2) ur show "\<exists>u r. s = u @ r \<and> toCasefold u = c # w \<and> matchHere rest r"
      by (intro exI[of _ "f @ u"] exI[of _ r]) simp
  next
    assume "\<exists>u r. s = u @ r \<and> toCasefold u = c # w \<and> matchHere rest r"
    then obtain u r where ur: "s = u @ r" "toCasefold u = c # w" "matchHere rest r" by blast
    from toCasefold_inv[OF c ur(2)] obtain f u' where f: "f \<in> set (foldForms c)"
      "u = f @ u'" "toCasefold u' = w" by blast
    from f(1,2) ur(1) have "matchAtom (Lit c) s = Some (u' @ r)"
      using matchAtom_Lit_iff[OF c, of s "u' @ r"] by auto
    moreover from IH f(3) ur(3) have "matchHere (map (\<lambda>c. (Lit c, One)) w @ rest) (u' @ r)"
      by blast
    ultimately show "matchHere (map (\<lambda>c. (Lit c, One)) (c # w) @ rest) s" by simp
  qed
qed

lemma matchHere_Class_star:
  "matchHere ((Class cs, ZeroOrMore) # ps) s \<longleftrightarrow>
   (\<exists>p r. s = p @ r \<and> set p \<subseteq> set cs \<and> matchHere ps r)"
proof (induction s)
  case Nil
  show ?case by simp
next
  case (Cons x s)
  show ?case
  proof (cases "x \<in> set cs")
    case True
    have "(\<exists>p r. x # s = p @ r \<and> set p \<subseteq> set cs \<and> matchHere ps r) \<longleftrightarrow>
          matchHere ps (x # s) \<or> (\<exists>p r. s = p @ r \<and> set p \<subseteq> set cs \<and> matchHere ps r)"
      (is "?L \<longleftrightarrow> ?R")
    proof
      assume ?L
      then obtain p r where pr: "x # s = p @ r" "set p \<subseteq> set cs" "matchHere ps r" by blast
      show ?R
      proof (cases p)
        case Nil
        with pr show ?thesis by simp
      next
        case (Cons y p')
        with pr have "s = p' @ r" "set p' \<subseteq> set cs" by auto
        with pr(3) show ?thesis by blast
      qed
    next
      assume ?R
      then show ?L
      proof
        assume "matchHere ps (x # s)"
        then show ?L by (intro exI[of _ "[]"] exI[of _ "x # s"]) simp
      next
        assume "\<exists>p r. s = p @ r \<and> set p \<subseteq> set cs \<and> matchHere ps r"
        then obtain p r where "s = p @ r" "set p \<subseteq> set cs" "matchHere ps r" by blast
        with True show ?L by (intro exI[of _ "x # p"] exI[of _ r]) simp
      qed
    qed
    with True Cons.IH show ?thesis by auto
  next
    case False
    have "(\<exists>p r. x # s = p @ r \<and> set p \<subseteq> set cs \<and> matchHere ps r) \<longleftrightarrow> matchHere ps (x # s)"
    proof
      assume "\<exists>p r. x # s = p @ r \<and> set p \<subseteq> set cs \<and> matchHere ps r"
      then obtain p r where pr: "x # s = p @ r" "set p \<subseteq> set cs" "matchHere ps r" by blast
      with False have "p = []" by (cases p) auto
      with pr show "matchHere ps (x # s)" by simp
    next
      assume "matchHere ps (x # s)"
      then show "\<exists>p r. x # s = p @ r \<and> set p \<subseteq> set cs \<and> matchHere ps r"
        by (intro exI[of _ "[]"] exI[of _ "x # s"]) simp
    qed
    with False show ?thesis by simp
  qed
qed

lemma matchHere_Class_opt:
  "matchHere [(Class cs, ZeroOrOne)] s \<longleftrightarrow> s = [] \<or> (\<exists>x\<in>set cs. s = [x])"
  by (cases s) auto

lemma matchHere_approved_tail:
  "matchHere [(Class ''.!'', ZeroOrMore), (Class [newline], ZeroOrMore)] r \<longleftrightarrow>
   (\<exists>p nl. r = p @ nl \<and> set p \<subseteq> {CHR ''.'', CHR ''!''} \<and> set nl \<subseteq> {newline})"
proof -
  have "matchHere [(Class [newline], ZeroOrMore)] t \<longleftrightarrow> set t \<subseteq> {newline}" for t
    using matchHere_Class_star[of "[newline]" "[]" t] by auto
  then show ?thesis
    using matchHere_Class_star[of "''.!''" "[(Class [newline], ZeroOrMore)]" r] by simp
qed

lemma words_folded:
  "list_all (\<lambda>w. toCasefold w = w) approvedWords"
  "list_all (\<lambda>w. toCasefold w = w) deniedWords"
  by code_simp+

lemma caselessMatch_word:
  "w \<in> set approvedWords \<or> w \<in> set deniedWords \<Longrightarrow> caselessMatch u w \<longleftrightarrow> toCasefold u = w"
  using words_folded unfolding list_all_iff caselessMatch_def by auto

lemma lit_bytes_subset:
  assumes "c \<in> set lowerASCII"
  shows "atomBytes (Lit c) \<subseteq> wordBytes"
proof -
  from foldForms_lower[OF assms] obtain d where d: "d \<in> set upperASCII"
    and ff: "foldForms c = [c] # [d] # (if c = CHR ''k'' then [[CHR 0xE2, CHR 0x84, CHR 0xAA]] else [])
       @ (if c = CHR ''s'' then [[CHR 0xC5, CHR 0xBF]] else [])"
    by blast
  from assms d ff show ?thesis unfolding wordBytes_def by (auto split: if_splits)
qed

lemma pattern_bytes:
  assumes "set w \<subseteq> set lowerASCII"
    and "matchHere (approvedPattern w) b \<or> matchHere (deniedPattern w) b"
  shows "set b \<subseteq> wordBytes"
proof -
  have lits: "atomBytes (Lit c) \<subseteq> wordBytes" if "c \<in> set w" for c
    using that assms(1) lit_bytes_subset[of c] by blast
  have tail: "atomBytes (Class ''.!'') \<subseteq> wordBytes" "atomBytes (Class [newline]) \<subseteq> wordBytes"
    by (simp_all add: wordBytes_def)
  have mem: "(\<exists>c\<in>set w. a = Lit c) \<or> a = Class ''.!'' \<or> a = Class [newline]"
    if "a \<in> fst ` set (approvedPattern w) \<or> a \<in> fst ` set (deniedPattern w)" for a
    using that by (auto simp: approvedPattern_def deniedPattern_def)
  have atoms: "atomBytes a \<subseteq> wordBytes"
    if "a \<in> fst ` set (approvedPattern w) \<or> a \<in> fst ` set (deniedPattern w)" for a
    using mem[OF that] lits tail by blast
  from assms(2) show ?thesis
  proof
    assume "matchHere (approvedPattern w) b"
    from matchHere_bytes[OF this] atoms show ?thesis by blast
  next
    assume "matchHere (deniedPattern w) b"
    from matchHere_bytes[OF this] atoms show ?thesis by blast
  qed
qed

lemma space_not_wordByte: "CHR '' '' \<notin> wordBytes" "CHR 0x09 \<notin> wordBytes"
  by (simp_all add: wordBytes_def lowerASCII_def upperASCII_def newline_def)

lemma classified_bytes:
  assumes "fst (isApproved b) \<or> fst (isDenied b)"
  shows "set b \<subseteq> wordBytes"
proof -
  from assms obtain w where
    "(w \<in> set approvedWords \<and> matchHere (approvedPattern w) b) \<or>
     (w \<in> set deniedWords \<and> matchHere (deniedPattern w) b)"
    by (auto simp: isApproved_eq isDenied_eq)
  then show ?thesis using pattern_bytes[of w b] words_lower[of w] by blast
qed

lemma isApproved_iff:
  "fst (isApproved body) \<longleftrightarrow>
   (\<exists>w\<in>set approvedWords. \<exists>u p nl. body = u @ p @ nl \<and> caselessMatch u w \<and>
      set p \<subseteq> {CHR ''.'', CHR ''!''} \<and> set nl \<subseteq> {newline})"
proof -
  have "matchHere (approvedPattern w) body \<longleftrightarrow>
        (\<exists>u p nl. body = u @ p @ nl \<and> caselessMatch u w \<and>
           set p \<subseteq> {CHR ''.'', CHR ''!''} \<and> set nl \<subseteq> {newline})"
    if w: "w \<in> set approvedWords" for w
  proof -
    from w have lw: "set w \<subseteq> set lowerASCII" by (rule words_lower)
    from w have cm: "caselessMatch u w \<longleftrightarrow> toCasefold u = w" for u
      by (simp add: caselessMatch_word)
    show ?thesis
      unfolding approvedPattern_def matchHere_literals[OF lw] matchHere_approved_tail cm
      by blast
  qed
  then show ?thesis by (auto simp: isApproved_eq)
qed

lemma isDenied_iff:
  "fst (isDenied body) \<longleftrightarrow>
   (\<exists>w\<in>set deniedWords. \<exists>u p. body = u @ p \<and> caselessMatch u w \<and>
      (p = [] \<or> p = ''.'' \<or> p = ''!''))"
proof -
  have "matchHere (deniedPattern w) body \<longleftrightarrow>
        (\<exists>u p. body = u @ p \<and> caselessMatch u w \<and> (p = [] \<or> p = ''.'' \<or> p = ''!''))"
    if w: "w \<in> set deniedWords" for w
  proof -
    from w have lw: "set w \<subseteq> set lowerASCII" by (rule words_lower)
    from w have cm: "caselessMatch u w \<longleftrightarrow> toCasefold u = w" for u
      by (simp add: caselessMatch_word)
    have opt: "matchHere [(Class ''.!'', ZeroOrOne)] p \<longleftrightarrow> p = [] \<or> p = ''.'' \<or> p = ''!''" for p
      unfolding matchHere_Class_opt by auto
    show ?thesis
      unfolding deniedPattern_def matchHere_literals[OF lw] opt cm
      by blast
  qed
  then show ?thesis by (auto simp: isDenied_eq)
qed


section \<open>The aggregator: auxiliary facts\<close>

lemma approversIndexLoop_neg_iff: "approversIndexLoop i xs n < 0 \<longleftrightarrow> n \<notin> set xs"
  by (induction xs arbitrary: i) auto

lemma approversIndexLoop_found:
  "n \<in> set xs \<Longrightarrow>
   \<exists>k<length xs. approversIndexLoop i xs n = int (i + k) \<and> xs ! k = n"
proof (induction xs arbitrary: i)
  case Nil
  then show ?case by simp
next
  case (Cons x xs)
  show ?case
  proof (cases "x = n")
    case True
    then show ?thesis by (intro exI[of _ 0]) simp
  next
    case False
    with Cons.prems have "n \<in> set xs" by simp
    from Cons.IH[OF this, of "Suc i"] obtain k where "k < length xs"
      "approversIndexLoop (Suc i) xs n = int (Suc i + k)" "xs ! k = n" by blast
    with False show ?thesis by (intro exI[of _ "Suc k"]) simp
  qed
qed

lemma approversIndex_neg_iff: "approversIndex xs n < 0 \<longleftrightarrow> n \<notin> set xs"
  by (simp add: approversIndex_def approversIndexLoop_neg_iff)

lemma approversIndex_found:
  assumes "n \<in> set xs"
  shows "nat (approversIndex xs n) < length xs \<and> xs ! nat (approversIndex xs n) = n"
proof -
  from approversIndexLoop_found[OF assms, of 0] obtain k where "k < length xs"
    "approversIndex xs n = int k" "xs ! k = n"
    by (auto simp: approversIndex_def)
  then show ?thesis by simp
qed

text \<open>Lines 138 and 139: the slot \<open>i\<close> takes the last element, the last slot goes.\<close>

lemma swap_remove_snoc:
  assumes "i < length (ys @ [y])"
  shows "take (length (ys @ [y]) - 1) ((ys @ [y])[i := (ys @ [y]) ! (length (ys @ [y]) - 1)]) =
         (if i < length ys then ys[i := y] else ys)"
  using assms by (auto simp: list_update_append)

lemma swap_remove_subset:
  assumes "i < length xs"
  shows "set (take (length xs - 1) (xs[i := xs ! (length xs - 1)])) \<subseteq> set xs"
proof -
  from assms have "xs \<noteq> []" by auto
  then obtain ys y where xs: "xs = ys @ [y]" by (metis rev_exhaust)
  have "set (ys[i := y]) \<subseteq> insert y (set ys)" by (rule set_update_subset_insert)
  with swap_remove_snoc[of i ys y] assms xs show ?thesis by (auto split: if_splits)
qed

lemma swap_remove_length:
  assumes "i < length xs"
  shows "length (take (length xs - 1) (xs[i := xs ! (length xs - 1)])) = length xs - 1"
  by simp

lemma swap_remove_distinct:
  assumes "i < length xs" "distinct xs"
  shows "distinct (take (length xs - 1) (xs[i := xs ! (length xs - 1)])) \<and>
         set (take (length xs - 1) (xs[i := xs ! (length xs - 1)])) = set xs - {xs ! i}"
proof -
  from assms have "xs \<noteq> []" by auto
  then obtain ys y where xs: "xs = ys @ [y]" by (metis rev_exhaust)
  from assms(2) xs have dy: "distinct ys" and y: "y \<notin> set ys" by auto
  show ?thesis
  proof (cases "i < length ys")
    case True
    have "distinct (ys[i := y])" using dy y by (simp add: distinct_list_update)
    moreover have "set (ys[i := y]) = insert y (set ys - {ys ! i})"
      using dy True by (simp add: set_update_distinct)
    moreover have "(ys @ [y]) ! i = ys ! i" using True by (simp add: nth_append)
    moreover have "ys ! i \<in> set ys" using True by simp
    ultimately show ?thesis using swap_remove_snoc[of i ys y] assms(1) xs True y
      by auto
  next
    case False
    with assms(1) xs have "i = length ys" by simp
    with swap_remove_snoc[of i ys y] xs dy y show ?thesis by auto
  qed
qed

lemma fillValidDeploymentNames_nil_map:
  "D \<noteq> [] \<Longrightarrow> fillValidDeploymentNames D None = Inl AssignmentToEntryInNilMap"
  by (cases D) (simp_all add: mapassign_def)

lemma deploymentNamesBlock_skip:
  "CHR ''['' \<notin> set b \<or> D = [] \<Longrightarrow> deploymentNamesBlock b D = Inr (b, [])"
  by (auto simp: deploymentNamesBlock_def)

lemma deploymentNamesBlock_enter:
  assumes "CHR ''['' \<in> set b" "D \<noteq> []"
  shows "deploymentNamesBlock b D =
     Inl (if length (FindStringSubmatch (bracketedPortion b)) \<noteq> 2
          then Return approvalStatusPending [] (Some (Errorf ''errors.comment by not valid''))
          else Panic AssignmentToEntryInNilMap)"
  using assms
  by (simp add: deploymentNamesBlock_def Let_def bracketedPortion_def
      fillValidDeploymentNames_nil_map)

lemma deploymentParseFails_iff:
  "deploymentParseFails b D \<longleftrightarrow> CHR ''['' \<in> set b \<and> D \<noteq> []"
proof (cases "CHR ''['' \<in> set b \<and> D \<noteq> []")
  case True
  then show ?thesis
    by (simp add: deploymentParseFails_def deploymentNamesBlock_enter)
next
  case False
  then have "deploymentNamesBlock b D = Inr (b, [])" by (auto intro: deploymentNamesBlock_skip)
  with False show ?thesis by (simp add: deploymentParseFails_def)
qed

lemma isApproved_pair: "isApproved b = (fst (isApproved b), None)"
  by (simp add: isApproved_eq)

lemma isDenied_pair: "isDenied b = (fst (isDenied b), None)"
  by (simp add: isDenied_eq)

lemma loopBody_cases:
  "loopBody c rem A m D =
     (if commentUser c \<notin> set rem then Continue rem
      else if CHR ''['' \<in> set (GetBody c) \<and> D \<noteq> [] then
        Exit (if length (FindStringSubmatch (bracketedPortion (GetBody c))) \<noteq> 2
              then Return approvalStatusPending [] (Some (Errorf ''errors.comment by not valid''))
              else Panic AssignmentToEntryInNilMap)
      else if approvalComment c then
        (if int (length rem) = int (length A) - m + 1
         then Exit (Return approvalStatusApproved [] None)
         else Continue (take (length rem - 1)
                (rem[nat (approversIndex rem (commentUser c)) := rem ! (length rem - 1)])))
      else if denialComment c then Exit (Return approvalStatusDenied [] None)
      else Continue rem)"
proof (cases "commentUser c \<in> set rem")
  case False
  then have "approversIndex rem (GetLogin (User c)) < 0"
    by (simp add: approversIndex_neg_iff commentUser_def)
  with False show ?thesis by (simp add: loopBody_def Let_def)
next
  case True
  then have idx: "\<not> approversIndex rem (GetLogin (User c)) < 0"
    by (simp add: approversIndex_neg_iff commentUser_def)
  show ?thesis
  proof (cases "CHR ''['' \<in> set (GetBody c) \<and> D \<noteq> []")
    case enter: True
    then have "deploymentNamesBlock (GetBody c) D =
       Inl (if length (FindStringSubmatch (bracketedPortion (GetBody c))) \<noteq> 2
            then Return approvalStatusPending [] (Some (Errorf ''errors.comment by not valid''))
            else Panic AssignmentToEntryInNilMap)"
      by (simp add: deploymentNamesBlock_enter)
    with True idx enter show ?thesis by (simp add: loopBody_def Let_def)
  next
    case skip: False
    then have blk: "deploymentNamesBlock (GetBody c) D = Inr (GetBody c, [])"
      by (auto intro: deploymentNamesBlock_skip)
    have a: "isApproved (GetBody c) = (approvalComment c, None)"
      using isApproved_pair[of "GetBody c"] by (simp add: approvalComment_def)
    have d: "isDenied (GetBody c) = (denialComment c, None)"
      using isDenied_pair[of "GetBody c"] by (simp add: denialComment_def)
    from True idx skip show ?thesis
      by (simp add: loopBody_def Let_def blk a d commentUser_def)
  qed
qed

lemma approval_no_bracket: "approvalComment c \<Longrightarrow> CHR ''['' \<notin> set (GetBody c)"
  by (simp add: approvalComment_def approved_no_bracket)

lemma denial_no_bracket: "denialComment c \<Longrightarrow> CHR ''['' \<notin> set (GetBody c)"
  by (simp add: denialComment_def denied_no_bracket)

lemma denial_not_approval: "denialComment c \<Longrightarrow> \<not> approvalComment c"
  by (simp add: denialComment_def approvalComment_def denied_not_approved)

lemma loopBody_skip:
  "commentUser c \<notin> set rem \<Longrightarrow> loopBody c rem A m D = Continue rem"
  by (simp add: loopBody_cases)

lemma loopBody_denial:
  "commentUser c \<in> set rem \<Longrightarrow> denialComment c \<Longrightarrow>
   loopBody c rem A m D = Exit (Return approvalStatusDenied [] None)"
  by (simp add: loopBody_cases denial_no_bracket denial_not_approval)

lemma loopBody_approval:
  "commentUser c \<in> set rem \<Longrightarrow> approvalComment c \<Longrightarrow>
   loopBody c rem A m D =
     (if int (length rem) = int (length A) - m + 1
      then Exit (Return approvalStatusApproved [] None)
      else Continue (take (length rem - 1)
             (rem[nat (approversIndex rem (commentUser c)) := rem ! (length rem - 1)])))"
  by (simp add: loopBody_cases approval_no_bracket)

lemma loopBody_Continue_subset:
  assumes "loopBody c rem A m D = Continue rem'"
  shows "set rem' \<subseteq> set rem"
proof (cases "commentUser c \<in> set rem")
  case False
  with assms show ?thesis by (simp add: loopBody_cases)
next
  case True
  from approversIndex_found[OF True]
  have "nat (approversIndex rem (commentUser c)) < length rem" by simp
  from swap_remove_subset[OF this] assms True show ?thesis
    by (auto simp: loopBody_cases split: if_splits)
qed

lemma loopBody_Continue_distinct:
  assumes "loopBody c rem A m D = Continue rem'" "distinct rem"
  shows "distinct rem'"
proof (cases "commentUser c \<in> set rem")
  case False
  with assms show ?thesis by (simp add: loopBody_cases)
next
  case True
  from approversIndex_found[OF True]
  have "nat (approversIndex rem (commentUser c)) < length rem" by simp
  from swap_remove_distinct[OF this assms(2)] assms True show ?thesis
    by (auto simp: loopBody_cases split: if_splits)
qed

lemma loopBody_Exit_not_pending:
  "loopBody c rem A m D = Exit out \<Longrightarrow> out \<noteq> Return approvalStatusPending [] None"
  by (auto simp: loopBody_cases split: if_splits)

lemma commentsLoop_append:
  "commentsLoop (pre @ post) rem A m D =
     (case remainingAfter pre rem A m D of
        None \<Rightarrow> commentsLoop pre rem A m D
      | Some rem' \<Rightarrow> commentsLoop post rem' A m D)"
  by (induction pre arbitrary: rem) (auto split: flow.splits option.splits)

lemma remainingAfter_append:
  "remainingAfter (pre @ post) rem A m D =
     (case remainingAfter pre rem A m D of
        None \<Rightarrow> None
      | Some rem' \<Rightarrow> remainingAfter post rem' A m D)"
  by (induction pre arbitrary: rem) (auto split: flow.splits)

lemma remainingAfter_subset:
  "remainingAfter cs rem A m D = Some rem' \<Longrightarrow> set rem' \<subseteq> set rem"
proof (induction cs arbitrary: rem)
  case Nil
  then show ?case by simp
next
  case (Cons c cs)
  then obtain r where r: "loopBody c rem A m D = Continue r"
    and rest: "remainingAfter cs r A m D = Some rem'"
    by (auto split: flow.splits)
  from Cons.IH[OF rest] loopBody_Continue_subset[OF r] show ?case by blast
qed

lemma remainingAfter_distinct:
  "remainingAfter cs rem A m D = Some rem' \<Longrightarrow> distinct rem \<Longrightarrow> distinct rem'"
proof (induction cs arbitrary: rem)
  case Nil
  then show ?case by simp
next
  case (Cons c cs)
  then obtain r where r: "loopBody c rem A m D = Continue r"
    and rest: "remainingAfter cs r A m D = Some rem'"
    by (auto split: flow.splits)
  from Cons.IH[OF rest] loopBody_Continue_distinct[OF r Cons.prems(2)] show ?case by blast
qed

lemma commentsLoop_pending_iff:
  "commentsLoop cs rem A m D = Return approvalStatusPending [] None \<longleftrightarrow>
   remainingAfter cs rem A m D \<noteq> None"
  by (induction cs arbitrary: rem) (auto split: flow.splits dest: loopBody_Exit_not_pending)

lemma approvalFromComments_loop:
  "approvalFromComments cs A m D = commentsLoop cs A A (threshold A m) D"
  by (simp add: approvalFromComments_def threshold_def)




text \<open>
  The comparison of line 135 in 64-bit arithmetic: when the test runs, the length \<open>r\<close> of
  the remaining approvers is at least 1 and at most the length \<open>n\<close> of the approvers,
  and both fit in an \<^verbatim>\<open>int\<close>.
\<close>

lemma wrap64_cong: "wrap64 x mod 2 ^ 64 = x mod 2 ^ 64"
proof -
  have "wrap64 x mod 2 ^ 64 = ((x + 2 ^ 63) mod 2 ^ 64 - 2 ^ 63 mod 2 ^ 64) mod 2 ^ 64"
    unfolding wrap64_def by (simp only: mod_diff_right_eq)
  also have "\<dots> = ((x + 2 ^ 63) - 2 ^ 63) mod 2 ^ 64"
    by (simp only: mod_diff_eq)
  finally show ?thesis by simp
qed

lemma quorum_test_does_not_wrap:
  fixes r n m :: int
  assumes "0 < r" "r \<le> n" "n < 2 ^ 63" "- (2 ^ 63) \<le> m" "m < 2 ^ 63"
  shows "r = wrap64 (wrap64 (n - m) + 1) \<longleftrightarrow> r = n - m + 1"
proof -
  have c: "wrap64 (wrap64 (n - m) + 1) mod 2 ^ 64 = (n - m + 1) mod 2 ^ 64"
  proof -
    have "wrap64 (wrap64 (n - m) + 1) mod 2 ^ 64 = (wrap64 (n - m) + 1) mod 2 ^ 64"
      by (rule wrap64_cong)
    also have "\<dots> = (wrap64 (n - m) mod 2 ^ 64 + 1) mod 2 ^ 64"
      by (simp only: mod_add_left_eq)
    also have "\<dots> = ((n - m) mod 2 ^ 64 + 1) mod 2 ^ 64"
      by (simp only: wrap64_cong)
    also have "\<dots> = (n - m + 1) mod 2 ^ 64"
      by (simp only: mod_add_left_eq)
    finally show ?thesis .
  qed
  have rng: "- (2 ^ 63) \<le> wrap64 x \<and> wrap64 x < 2 ^ 63" for x
  proof -
    have "0 \<le> (x + 2 ^ 63) mod (2 ^ 64 :: int)" "(x + 2 ^ 63) mod (2 ^ 64 :: int) < 2 ^ 64"
      by simp_all
    then show ?thesis unfolding wrap64_def by simp
  qed
  show ?thesis
  proof
    assume e: "r = wrap64 (wrap64 (n - m) + 1)"
    with c have "r mod 2 ^ 64 = (n - m + 1) mod 2 ^ 64" by simp
    then have "(2 ^ 64 :: int) dvd r - (n - m + 1)" by (metis mod_eq_dvd_iff)
    then obtain k where k: "r - (n - m + 1) = 2 ^ 64 * k" unfolding dvd_def by blast
    from assms have lo: "- (2 ^ 64) < r - (n - m + 1)" and hi: "r - (n - m + 1) < 2 ^ 64" by simp_all
    from k lo hi have "k = 0" by (cases "k \<le> - 1"; cases "1 \<le> k") simp_all
    with k show "r = n - m + 1" by simp
  next
    assume e: "r = n - m + 1"
    from rng[of "wrap64 (n - m) + 1"] obtain w where w: "w = wrap64 (wrap64 (n - m) + 1)"
      "- (2 ^ 63) \<le> w" "w < 2 ^ 63" by blast
    from c w(1) e have "w mod 2 ^ 64 = r mod 2 ^ 64" by simp
    then have "(2 ^ 64 :: int) dvd w - r" by (metis mod_eq_dvd_iff)
    then obtain k' where "w - r = 2 ^ 64 * k'" unfolding dvd_def by blast
    then have "r - w = 2 ^ 64 * (- k')" by simp
    then obtain k where k: "r - w = 2 ^ 64 * k" by blast
    from assms w have lo: "- (2 ^ 64) < r - w" and hi: "r - w < 2 ^ 64" by simp_all
    from k lo hi have "k = 0" by (cases "k \<le> - 1"; cases "1 \<le> k") simp_all
    with k w(1) show "r = wrap64 (wrap64 (n - m) + 1)" by simp
  qed
qed

text \<open>Counting the approvals of distinct remaining approvers.\<close>

lemma set_stillRemaining:
  "set (stillRemaining rem p) =
   {a \<in> set rem. \<forall>c\<in>set p. commentUser c = a \<longrightarrow> \<not> approvalComment c}"
  by (auto simp: stillRemaining_def list_ex_iff)

lemma approvalsBy_cong:
  assumes "\<And>c. c \<in> set cs \<Longrightarrow> approvalComment c \<Longrightarrow>
             (commentUser c \<in> set r1 \<longleftrightarrow> commentUser c \<in> set r2)"
  shows "approvalsBy r1 cs = approvalsBy r2 cs"
  unfolding approvalsBy_def using assms by (intro filter_cong) auto

lemma approvalsBy_Cons:
  "approvalsBy rem (x # xs) =
     (if approvalComment x \<and> commentUser x \<in> set rem then x # approvalsBy rem xs
      else approvalsBy rem xs)"
  by (simp add: approvalsBy_def)

lemma approvalsBy_subset: "set (approvalsBy rem cs) \<subseteq> set cs"
  by (auto simp: approvalsBy_def)

lemma approvalsBy_member:
  "y \<in> set (approvalsBy rem cs) \<longleftrightarrow> y \<in> set cs \<and> approvalComment y \<and> commentUser y \<in> set rem"
  by (auto simp: approvalsBy_def)

lemma quorum_loop:
  assumes "distinct rem"
    and "approvalComment c" and "commentUser c \<in> set rem"
    and "distinct (map commentUser (approvalsBy rem (pre @ [c])))"
    and "int (length rem) - int (length (approvalsBy rem pre)) = int (length A) - m + 1"
    and "\<forall>i<length pre. commentUser (pre ! i) \<in> set (stillRemaining rem (take i pre)) \<longrightarrow>
           \<not> denialComment (pre ! i) \<and> \<not> deploymentParseFails (GetBody (pre ! i)) D"
  shows "\<exists>rem'. remainingAfter pre rem A m D = Some rem' \<and>
           loopBody c rem' A m D = Exit (Return approvalStatusApproved [] None)"
  using assms
proof (induction pre arbitrary: rem)
  case Nil
  then have "int (length rem) = int (length A) - m + 1" by (simp add: approvalsBy_def)
  with Nil.prems(2,3) show ?case by (simp add: loopBody_approval)
next
  case (Cons x xs)
  let ?u = "commentUser x"
  have tail: "\<forall>i<length xs. commentUser (xs ! i) \<in> set (stillRemaining rem (x # take i xs)) \<longrightarrow>
           \<not> denialComment (xs ! i) \<and> \<not> deploymentParseFails (GetBody (xs ! i)) D"
  proof (intro allI impI)
    fix i assume i: "i < length xs"
      and mem: "commentUser (xs ! i) \<in> set (stillRemaining rem (x # take i xs))"
    from i have "Suc i < length (x # xs)" by simp
    with Cons.prems(6) mem show "\<not> denialComment (xs ! i) \<and> \<not> deploymentParseFails (GetBody (xs ! i)) D"
      by (metis nth_Cons_Suc take_Suc_Cons)
  qed
  have keep: "?case" if step: "loopBody x rem A m D = Continue rem"
    and nocount: "\<not> (approvalComment x \<and> ?u \<in> set rem)"
  proof -
    from nocount have a1: "approvalsBy rem (x # ys) = approvalsBy rem ys" for ys
      by (simp add: approvalsBy_Cons)
    have sr: "set (stillRemaining rem (take i xs)) \<subseteq> set (stillRemaining rem (x # take i xs))" for i
      using nocount by (auto simp: set_stillRemaining)
    have h6: "\<forall>i<length xs. commentUser (xs ! i) \<in> set (stillRemaining rem (take i xs)) \<longrightarrow>
           \<not> denialComment (xs ! i) \<and> \<not> deploymentParseFails (GetBody (xs ! i)) D"
      using tail sr by blast
    from Cons.prems(4) a1[of "xs @ [c]"]
    have h4: "distinct (map commentUser (approvalsBy rem (xs @ [c])))" by simp
    from Cons.prems(5) a1[of xs]
    have h5: "int (length rem) - int (length (approvalsBy rem xs)) = int (length A) - m + 1" by simp
    from Cons.IH[OF Cons.prems(1,2,3) h4 h5 h6] step show ?thesis by simp
  qed
  show ?case
  proof (cases "?u \<in> set rem")
    case False
    then have "loopBody x rem A m D = Continue rem" by (rule loopBody_skip)
    with False show ?thesis by (intro keep) simp_all
  next
    case True
    show ?thesis
    proof (cases "approvalComment x")
      case False
      from Cons.prems(6) True have "\<not> denialComment x \<and> \<not> deploymentParseFails (GetBody x) D"
        by (auto simp: set_stillRemaining)
      with True False have "loopBody x rem A m D = Continue rem"
        by (simp add: loopBody_cases deploymentParseFails_iff)
      with False show ?thesis by (intro keep) simp_all
    next
      case approve: True
      let ?i = "nat (approversIndex rem ?u)"
      let ?rem1 = "take (length rem - 1) (rem[?i := rem ! (length rem - 1)])"
      from approversIndex_found[OF True] have i: "?i < length rem" and at: "rem ! ?i = ?u"
        by simp_all
      from swap_remove_distinct[OF i Cons.prems(1)] at
      have d1: "distinct ?rem1" and s1: "set ?rem1 = set rem - {?u}" by simp_all
      from i have l1: "length ?rem1 = length rem - 1" and pos: "0 < length rem" by auto
      from approve True have ax: "approvalsBy rem (x # ys) = x # approvalsBy rem ys" for ys
        by (simp add: approvalsBy_Cons)
      from Cons.prems(4) ax[of "xs @ [c]"]
      have fresh: "?u \<notin> commentUser ` set (approvalsBy rem (xs @ [c]))"
        and dist: "distinct (map commentUser (approvalsBy rem (xs @ [c])))" by simp_all
      have same: "approvalsBy ?rem1 ys = approvalsBy rem ys" if "set ys \<subseteq> set (xs @ [c])" for ys
      proof (rule approvalsBy_cong)
        fix y assume y: "y \<in> set ys" "approvalComment y"
        show "commentUser y \<in> set ?rem1 \<longleftrightarrow> commentUser y \<in> set rem"
        proof
          assume "commentUser y \<in> set ?rem1"
          with s1 show "commentUser y \<in> set rem" by simp
        next
          assume m: "commentUser y \<in> set rem"
          with y that have "y \<in> set (approvalsBy rem (xs @ [c]))"
            by (auto simp: approvalsBy_member)
          with fresh have "commentUser y \<noteq> ?u" by (metis imageI)
          with m s1 show "commentUser y \<in> set ?rem1" by simp
        qed
      qed
      from Cons.prems(5) ax[of xs] have "int (length rem) \<noteq> int (length A) - m + 1" by simp
      with True approve have step: "loopBody x rem A m D = Continue ?rem1"
        by (simp add: loopBody_approval)
      have "c \<in> set (approvalsBy rem (xs @ [c]))"
        using Cons.prems(2,3) by (simp add: approvalsBy_member)
      with fresh have "commentUser c \<noteq> ?u" by (metis imageI)
      with Cons.prems(3) s1 have h3: "commentUser c \<in> set ?rem1" by simp
      have "approvalsBy ?rem1 (xs @ [c]) = approvalsBy rem (xs @ [c])" by (rule same) simp
      with dist have h4: "distinct (map commentUser (approvalsBy ?rem1 (xs @ [c])))"
        by (simp only:)
      have sx: "approvalsBy ?rem1 xs = approvalsBy rem xs" by (rule same) auto
      have cnt: "int (length rem) - (1 + int (length (approvalsBy rem xs))) = int (length A) - m + 1"
        using Cons.prems(5) ax[of xs] by simp
      have il: "int (length ?rem1) = int (length rem) - 1"
      proof -
        from pos obtain k where "length rem = Suc k" by (cases rem) auto
        then show ?thesis by simp
      qed
      have h5: "int (length ?rem1) - int (length (approvalsBy ?rem1 xs)) = int (length A) - m + 1"
      proof -
        have "int (length ?rem1) - int (length (approvalsBy ?rem1 xs)) =
              (int (length rem) - 1) - int (length (approvalsBy rem xs))"
          by (simp only: sx il)
        with cnt show ?thesis by linarith
      qed
      have sr: "set (stillRemaining ?rem1 (take i xs)) \<subseteq> set (stillRemaining rem (x # take i xs))" for i
        using s1 by (auto simp: set_stillRemaining)
      have h6: "\<forall>i<length xs. commentUser (xs ! i) \<in> set (stillRemaining ?rem1 (take i xs)) \<longrightarrow>
           \<not> denialComment (xs ! i) \<and> \<not> deploymentParseFails (GetBody (xs ! i)) D"
        using tail sr by blast
      from Cons.IH[OF d1 Cons.prems(2) h3 h4 h5 h6] step show ?thesis by simp
    qed
  qed
qed


section \<open>Properties of the classifier\<close>

text \<open>
  C5. \<^verbatim>\<open>isApproved\<close> is true exactly when the whole body is one of the approval
  words, matched caselessly, then any number of \<^verbatim>\<open>.\<close> and \<^verbatim>\<open>!\<close>, then any
  number of newlines, and nothing else. \<^verbatim>\<open>isDenied\<close> is true exactly when the whole
  body is one of the denial words, matched caselessly, then at most one \<^verbatim>\<open>.\<close> or
  \<^verbatim>\<open>!\<close>, with no newline after it. Neither returns an error. A trailing space or
  tab is not trimmed: a body that ends in one is never accepted. Caseless matching is
  that of the Unicode case folding, which the flag \<^verbatim>\<open>i\<close> of Go's regular
  expressions implements: the \<^verbatim>\<open>s\<close> of \<^verbatim>\<open>yes\<close> is also matched by U+017F.
\<close>

theorem classifier_matches_whole_body:
  "(fst (isApproved body) \<longleftrightarrow>
      (\<exists>w\<in>set approvedWords. \<exists>u p nl. body = u @ p @ nl \<and> caselessMatch u w \<and>
         set p \<subseteq> {CHR ''.'', CHR ''!''} \<and> set nl \<subseteq> {newline})) \<and>
   (fst (isDenied body) \<longleftrightarrow>
      (\<exists>w\<in>set deniedWords. \<exists>u p. body = u @ p \<and> caselessMatch u w \<and>
         (p = [] \<or> p = ''.'' \<or> p = ''!''))) \<and>
   snd (isApproved body) = None \<and> snd (isDenied body) = None \<and>
   \<not> fst (isApproved (body @ '' '')) \<and> \<not> fst (isDenied (body @ '' '')) \<and>
   \<not> fst (isApproved (body @ [CHR 0x09])) \<and> \<not> fst (isDenied (body @ [CHR 0x09]))"
proof -
  have sp: "\<not> fst (isApproved (body @ [x])) \<and> \<not> fst (isDenied (body @ [x]))"
    if "x \<notin> wordBytes" for x
  proof -
    have "\<not> set (body @ [x]) \<subseteq> wordBytes" using that by simp
    with classified_bytes[of "body @ [x]"] show ?thesis by blast
  qed
  from sp[OF space_not_wordByte(1)] sp[OF space_not_wordByte(2)]
    isApproved_iff[of body] isDenied_iff[of body] isApproved_snd[of body] isDenied_snd[of body]
  show ?thesis by blast
qed

theorem classifier_matches_whole_body_witness:
  "fst (isApproved (''APPROVE.'' @ [newline])) \<and> \<not> fst (isApproved (''approved'' @ '' '')) \<and>
   fst (isDenied ''No!'') \<and> \<not> fst (isDenied (''no'' @ [newline]))"
proof -
  have a: "''approve'' \<in> set approvedWords" "caselessMatch ''APPROVE'' ''approve''" by code_simp+
  have "\<exists>w\<in>set approvedWords. \<exists>u p nl. ''APPROVE.'' @ [newline] = u @ p @ nl \<and> caselessMatch u w \<and>
         set p \<subseteq> {CHR ''.'', CHR ''!''} \<and> set nl \<subseteq> {newline}"
    using a by (intro bexI[of _ "''approve''"] exI[of _ "''APPROVE''"] exI[of _ "''.''"] exI[of _ "[newline]"]) simp_all
  with classifier_matches_whole_body[of "''APPROVE.'' @ [newline]"]
  have 1: "fst (isApproved (''APPROVE.'' @ [newline]))" by blast
  from classifier_matches_whole_body[of "''approved''"]
  have 2: "\<not> fst (isApproved (''approved'' @ '' ''))" by blast
  have d: "''no'' \<in> set deniedWords" "caselessMatch ''No'' ''no''" by code_simp+
  have "\<exists>w\<in>set deniedWords. \<exists>u p. ''No!'' = u @ p \<and> caselessMatch u w \<and>
         (p = [] \<or> p = ''.'' \<or> p = ''!'')"
    using d by (intro bexI[of _ "''no''"] exI[of _ "''No''"] exI[of _ "''!''"]) simp_all
  with classifier_matches_whole_body[of "''No!''"]
  have 3: "fst (isDenied ''No!'')" by blast
  have 4: "\<not> fst (isDenied (''no'' @ [newline]))" by code_simp
  from 1 2 3 4 show ?thesis by blast
qed


section \<open>Properties of the aggregator\<close>

subsection \<open>Reaching the quorum\<close>

text \<open>
  The quorum with plain approvals. Let the approvers \<open>A\<close> be distinct and
  \<open>1 \<le> m \<le> len(A)\<close>. Let \<open>c\<close> be a comment of a member of \<open>A\<close> whose whole body
  is an approval, the \<open>m\<close>-th such comment of the sequence, these \<open>m\<close> comments being of
  \<open>m\<close> distinct authors. If no comment before \<open>c\<close> of a then remaining approver (a
  member of \<open>A\<close> with no approval comment so far) is a denial or enters the extraction
  of deployment names (a body with \<^verbatim>\<open>[\<close> under a non-empty allow-list), then the
  function returns \<^verbatim>\<open>Approved\<close> with a nil error and no names, and \<open>c\<close> is the
  comment that decides. What follows \<open>c\<close> is arbitrary.
\<close>

theorem quorum_of_distinct_approvals_is_approved:
  assumes "distinct A"
    and "1 \<le> m" and "m \<le> int (length A)"
    and "approvalComment c" and "commentUser c \<in> set A"
    and "int (length (approvalsBy A (pre @ [c]))) = m"
    and "distinct (map commentUser (approvalsBy A (pre @ [c])))"
    and "\<forall>i<length pre. commentUser (pre ! i) \<in> set (stillRemaining A (take i pre)) \<longrightarrow>
           \<not> denialComment (pre ! i) \<and> \<not> deploymentParseFails (GetBody (pre ! i)) D"
  shows "approvalFromComments (pre @ c # post) A m D = Return approvalStatusApproved [] None \<and>
         (\<exists>rem. remainingApprovers pre A m D = Some rem \<and>
            loopBody c rem A (threshold A m) D = Exit (Return approvalStatusApproved [] None))"
proof -
  from assms(2) have t: "threshold A m = m" by (simp add: threshold_def)
  have "approvalsBy A (pre @ [c]) = approvalsBy A pre @ [c]"
    using assms(4,5) by (simp add: approvalsBy_def)
  with assms(6) have "int (length A) - int (length (approvalsBy A pre)) = int (length A) - m + 1"
    by simp
  from quorum_loop[OF assms(1,4,5,7) this assms(8)] obtain rem
    where rem: "remainingAfter pre A A m D = Some rem"
      and ex: "loopBody c rem A m D = Exit (Return approvalStatusApproved [] None)" by blast
  from rem ex have "approvalFromComments (pre @ c # post) A m D = Return approvalStatusApproved [] None"
    by (simp add: approvalFromComments_loop commentsLoop_append t)
  with rem ex t show ?thesis by (simp add: remainingApprovers_def)
qed

theorem quorum_of_distinct_approvals_is_approved_witness:
  "approvalFromComments
     ([mkComment ''alice'' ''lgtm'', mkComment ''dave'' ''approved'', mkComment ''carol'' ''not sure'']
        @ mkComment ''bob'' ''approve'' # [mkComment ''carol'' ''no''])
     [''alice'', ''bob'', ''carol''] 2 [''blue''] = Return approvalStatusApproved [] None"
proof -
  let ?A = "[''alice'', ''bob'', ''carol'']"
  let ?pre = "[mkComment ''alice'' ''lgtm'', mkComment ''dave'' ''approved'', mkComment ''carol'' ''not sure'']"
  let ?c = "mkComment ''bob'' ''approve''"
  have h1: "distinct ?A" by simp
  have h2: "(1::int) \<le> 2" by simp
  have h3: "(2::int) \<le> int (length ?A)" by simp
  have h4: "approvalComment ?c" by code_simp
  have h5: "commentUser ?c \<in> set ?A" by code_simp
  have h6: "int (length (approvalsBy ?A (?pre @ [?c]))) = 2" by code_simp
  have h7: "distinct (map commentUser (approvalsBy ?A (?pre @ [?c])))" by code_simp
  have p0: "\<not> denialComment (?pre ! 0) \<and> \<not> deploymentParseFails (GetBody (?pre ! 0)) [''blue'']"
    by code_simp
  have p1: "\<not> denialComment (?pre ! 1) \<and> \<not> deploymentParseFails (GetBody (?pre ! 1)) [''blue'']"
    by code_simp
  have p2: "\<not> denialComment (?pre ! 2) \<and> \<not> deploymentParseFails (GetBody (?pre ! 2)) [''blue'']"
    by code_simp
  have h8: "\<forall>i<length ?pre. commentUser (?pre ! i) \<in> set (stillRemaining ?A (take i ?pre)) \<longrightarrow>
           \<not> denialComment (?pre ! i) \<and> \<not> deploymentParseFails (GetBody (?pre ! i)) [''blue'']"
  proof (intro allI impI)
    fix i assume "i < length ?pre"
    then have "i = 0 \<or> i = 1 \<or> i = 2" by auto
    with p0 p1 p2 show "\<not> denialComment (?pre ! i) \<and> \<not> deploymentParseFails (GetBody (?pre ! i)) [''blue'']"
      by blast
  qed
  from quorum_of_distinct_approvals_is_approved[OF h1 h2 h3 h4 h5 h6 h7 h8, of "[mkComment ''carol'' ''no'']"]
  show ?thesis by blast
qed


text \<open>
  C1 asks for \<^verbatim>\<open>Approved\<close> whenever \<open>m\<close> distinct members of a distinct list
  approve and nothing before the \<open>m\<close>-th approval is a denial or a deployment-parse
  error. An approval that names its targets is an approval too, and with the approvers
  \<^verbatim>\<open>alice, bob\<close>, the threshold 2 and the allow-list \<^verbatim>\<open>blue\<close> the comments
  \<^verbatim>\<open>yes\<close> of alice and \<^verbatim>\<open>lgtm[blue]\<close> of bob are two such approvals: the word
  before the bracket is an approval word, the bracket matches and names a configured
  target. The call does not return \<^verbatim>\<open>Approved\<close>: the second comment reaches the
  store into the nil map of line 119 and the call panics.
\<close>

theorem quorum_with_targeted_approval_panics:
  "fst (isApproved ''yes'') \<and>
   fst (isApproved (strings_Split ''lgtm[blue]'' (CHR ''['') ! 0)) \<and>
   FindStringSubmatch (bracketedPortion ''lgtm[blue]'') = [''[blue]'', ''blue''] \<and>
   strings_Split ''blue'' (CHR '','') = [''blue''] \<and>
   remainingApprovers [mkComment ''alice'' ''yes''] [''alice'', ''bob''] 2 [''blue''] = Some [''bob''] \<and>
   approvalFromComments [mkComment ''alice'' ''yes'', mkComment ''bob'' ''lgtm[blue]'']
     [''alice'', ''bob''] 2 [''blue''] = Panic AssignmentToEntryInNilMap"
  by code_simp


subsection \<open>The threshold zero\<close>

text \<open>
  C8. With \<open>minimumApprovals = 0\<close> the function returns exactly what it returns with
  \<open>minimumApprovals = len(approvers)\<close>, for every comment sequence, approver list and
  allow-list.
\<close>

theorem zero_threshold_is_all_approvers:
  "approvalFromComments comments approvers 0 multipleDeploymentNames =
   approvalFromComments comments approvers (int (length approvers)) multipleDeploymentNames"
  by (simp add: approvalFromComments_def)

theorem zero_threshold_is_all_approvers_witness:
  "approvalFromComments [mkComment ''alice'' ''yes'', mkComment ''bob'' ''LGTM!''] [''alice'', ''bob''] 0 [] =
     Return approvalStatusApproved [] None \<and>
   approvalFromComments [mkComment ''alice'' ''yes'', mkComment ''bob'' ''LGTM!''] [''alice'', ''bob''] 2 [] =
     Return approvalStatusApproved [] None"
  using zero_threshold_is_all_approvers
    [of "[mkComment ''alice'' ''yes'', mkComment ''bob'' ''LGTM!'']" "[''alice'', ''bob'']" "[]"]
  by code_simp

subsection \<open>Comments of outsiders\<close>

text \<open>
  C6. A comment whose author is not in the configured approver list can be inserted or
  removed at any position without changing what \<^verbatim>\<open>approvalFromComments\<close> does,
  whatever its body is: the author is not among the remaining approvers, so line 97 skips
  the comment before its body is read.
\<close>

theorem outsider_comment_has_no_effect:
  assumes "commentUser c \<notin> set A"
  shows "approvalFromComments (pre @ c # post) A m D = approvalFromComments (pre @ post) A m D"
proof (cases "remainingAfter pre A A (threshold A m) D")
  case None
  then show ?thesis by (simp add: approvalFromComments_loop commentsLoop_append)
next
  case (Some rem)
  from remainingAfter_subset[OF Some] assms have "commentUser c \<notin> set rem" by blast
  then have "loopBody c rem A (threshold A m) D = Continue rem" by (rule loopBody_skip)
  with Some show ?thesis by (simp add: approvalFromComments_loop commentsLoop_append)
qed

theorem outsider_comment_has_no_effect_witness:
  "commentUser (mkComment ''dave'' ''no'') \<notin> set [''alice'', ''bob''] \<and>
   approvalFromComments ([mkComment ''alice'' ''yes''] @ mkComment ''dave'' ''no'' # [mkComment ''bob'' ''lgtm''])
     [''alice'', ''bob''] 2 [] =
   approvalFromComments ([mkComment ''alice'' ''yes''] @ [mkComment ''bob'' ''lgtm'']) [''alice'', ''bob''] 2 []"
proof -
  have h: "commentUser (mkComment ''dave'' ''no'') \<notin> set [''alice'', ''bob'']" by code_simp
  from h outsider_comment_has_no_effect[OF h, of "[mkComment ''alice'' ''yes'']" "[mkComment ''bob'' ''lgtm'']" 2 "[]"]
  show ?thesis by blast
qed


subsection \<open>A second comment of a counted approver\<close>

text \<open>
  C7. Let the approver list be distinct, let the loop reach the approval comment \<open>c1\<close>
  with its author among the remaining approvers \<open>rem\<close>, and let \<open>c1\<close> be counted
  (it does not complete the quorum). Then the author is removed from the remaining
  approvers, once; and a later comment \<open>c2\<close> of the same author, a second approval in
  particular, changes neither the remaining approvers nor the result.
\<close>

theorem counted_author_is_skipped_afterwards:
  assumes "distinct A"
    and "remainingApprovers pre A m D = Some rem"
    and "commentUser c1 \<in> set rem"
    and "approvalComment c1"
    and "int (length rem) \<noteq> int (length A) - threshold A m + 1"
    and "commentUser c2 = commentUser c1"
  shows "(\<exists>rem'. remainingApprovers (pre @ [c1]) A m D = Some rem' \<and>
            length rem' = length rem - 1 \<and> set rem' = set rem - {commentUser c1}) \<and>
         remainingApprovers (pre @ c1 # mid @ [c2]) A m D = remainingApprovers (pre @ c1 # mid) A m D \<and>
         approvalFromComments (pre @ c1 # mid @ c2 # post) A m D =
         approvalFromComments (pre @ c1 # mid @ post) A m D"
proof -
  let ?m = "threshold A m"
  let ?i = "nat (approversIndex rem (commentUser c1))"
  let ?rem1 = "take (length rem - 1) (rem[?i := rem ! (length rem - 1)])"
  from assms(2) have pre: "remainingAfter pre A A ?m D = Some rem"
    by (simp add: remainingApprovers_def)
  from remainingAfter_distinct[OF pre assms(1)] have drem: "distinct rem" .
  from approversIndex_found[OF assms(3)] have i: "?i < length rem" and at: "rem ! ?i = commentUser c1"
    by simp_all
  from assms(3,4,5) have step: "loopBody c1 rem A ?m D = Continue ?rem1"
    by (simp add: loopBody_approval)
  from swap_remove_distinct[OF i drem] at
  have d1: "distinct ?rem1" and s1: "set ?rem1 = set rem - {commentUser c1}" by simp_all
  have after1: "remainingAfter (pre @ [c1]) A A ?m D = Some ?rem1"
    using pre step by (simp add: remainingAfter_append)
  have first: "\<exists>rem'. remainingApprovers (pre @ [c1]) A m D = Some rem' \<and>
            length rem' = length rem - 1 \<and> set rem' = set rem - {commentUser c1}"
    using after1 s1 by (simp add: remainingApprovers_def)
  have ra: "remainingAfter (pre @ c1 # xs) A A ?m D = remainingAfter xs ?rem1 A ?m D" for xs
    using pre step by (simp add: remainingAfter_append)
  have cl: "commentsLoop (pre @ c1 # xs) A A ?m D = commentsLoop xs ?rem1 A ?m D" for xs
    using pre step by (simp add: commentsLoop_append)
  have skip: "loopBody c2 r A ?m D = Continue r" if "remainingAfter mid ?rem1 A ?m D = Some r" for r
  proof -
    from remainingAfter_subset[OF that] s1 assms(6) have "commentUser c2 \<notin> set r" by auto
    then show ?thesis by (rule loopBody_skip)
  qed
  have "remainingAfter (mid @ [c2]) ?rem1 A ?m D = remainingAfter mid ?rem1 A ?m D"
  proof (cases "remainingAfter mid ?rem1 A ?m D")
    case None
    then show ?thesis by (simp add: remainingAfter_append)
  next
    case (Some r)
    with skip[OF Some] show ?thesis by (simp add: remainingAfter_append)
  qed
  then have second: "remainingApprovers (pre @ c1 # mid @ [c2]) A m D =
      remainingApprovers (pre @ c1 # mid) A m D"
    by (simp add: remainingApprovers_def ra)
  have "commentsLoop (mid @ c2 # post) ?rem1 A ?m D = commentsLoop (mid @ post) ?rem1 A ?m D"
  proof (cases "remainingAfter mid ?rem1 A ?m D")
    case None
    then show ?thesis by (simp add: commentsLoop_append)
  next
    case (Some r)
    with skip[OF Some] show ?thesis by (simp add: commentsLoop_append)
  qed
  then have third: "approvalFromComments (pre @ c1 # mid @ c2 # post) A m D =
         approvalFromComments (pre @ c1 # mid @ post) A m D"
    by (simp add: approvalFromComments_loop cl)
  from first second third show ?thesis by blast
qed

theorem counted_author_is_skipped_afterwards_witness:
  "approvalFromComments ([] @ mkComment ''alice'' ''yes'' # [] @ mkComment ''alice'' ''approve'' # [])
     [''alice'', ''bob''] 2 [] =
   approvalFromComments ([] @ mkComment ''alice'' ''yes'' # [] @ []) [''alice'', ''bob''] 2 [] \<and>
   approvalFromComments ([] @ mkComment ''alice'' ''yes'' # [] @ mkComment ''alice'' ''approve'' # [])
     [''alice'', ''bob''] 2 [] = Return approvalStatusPending [] None"
proof -
  have h1: "distinct [''alice'', ''bob'']" by simp
  have h2: "remainingApprovers [] [''alice'', ''bob''] 2 [] = Some [''alice'', ''bob'']" by code_simp
  have h3: "commentUser (mkComment ''alice'' ''yes'') \<in> set [''alice'', ''bob'']" by code_simp
  have h4: "approvalComment (mkComment ''alice'' ''yes'')" by code_simp
  have h5: "int (length [''alice'', ''bob'']) \<noteq> int (length [''alice'', ''bob'']) - threshold [''alice'', ''bob''] 2 + 1"
    by code_simp
  have h6: "commentUser (mkComment ''alice'' ''approve'') = commentUser (mkComment ''alice'' ''yes'')"
    by code_simp
  have p: "approvalFromComments ([] @ mkComment ''alice'' ''yes'' # [] @ [])
     [''alice'', ''bob''] 2 [] = Return approvalStatusPending [] None" by code_simp
  from counted_author_is_skipped_afterwards[OF h1 h2 h3 h4 h5 h6, of "[]" "[]"] p
  show ?thesis by simp
qed


subsection \<open>Exhausting the comments\<close>




subsection \<open>A verdict is not overturned by newer comments\<close>

text \<open>
  C10. If \<^verbatim>\<open>approvalFromComments\<close> returns \<^verbatim>\<open>Approved\<close>, \<^verbatim>\<open>Denied\<close> or a
  non-nil error on \<open>cs\<close>, it returns the same status, names and error on \<open>cs @ ext\<close>
  for every \<open>ext\<close>; a panic on \<open>cs\<close> is a panic on \<open>cs @ ext\<close> as well.
\<close>

theorem verdict_stable_under_newer_comments:
  "(approvalFromComments cs A m D = Return st ns e \<and>
      (st = approvalStatusApproved \<or> st = approvalStatusDenied \<or> e \<noteq> None)
     \<longrightarrow> approvalFromComments (cs @ ext) A m D = Return st ns e) \<and>
   (approvalFromComments cs A m D = Panic p
     \<longrightarrow> approvalFromComments (cs @ ext) A m D = Panic p)"
proof -
  have stable: "approvalFromComments (cs @ ext) A m D = approvalFromComments cs A m D"
    if "approvalFromComments cs A m D \<noteq> Return approvalStatusPending [] None"
  proof -
    from that have "remainingAfter cs A A (threshold A m) D = None"
      by (simp add: approvalFromComments_loop commentsLoop_pending_iff)
    then show ?thesis by (simp add: approvalFromComments_loop commentsLoop_append)
  qed
  show ?thesis
  proof (intro conjI impI)
    assume "approvalFromComments cs A m D = Return st ns e \<and>
      (st = approvalStatusApproved \<or> st = approvalStatusDenied \<or> e \<noteq> None)"
    then have r: "approvalFromComments cs A m D = Return st ns e"
      and "approvalFromComments cs A m D \<noteq> Return approvalStatusPending [] None" by auto
    from stable[OF this(2)] r show "approvalFromComments (cs @ ext) A m D = Return st ns e"
      by simp
  next
    assume r: "approvalFromComments cs A m D = Panic p"
    then have "approvalFromComments cs A m D \<noteq> Return approvalStatusPending [] None" by simp
    from stable[OF this] r show "approvalFromComments (cs @ ext) A m D = Panic p" by simp
  qed
qed

theorem verdict_stable_under_newer_comments_witness:
  "approvalFromComments [mkComment ''alice'' ''no''] [''alice'', ''bob''] 1 [] =
     Return approvalStatusDenied [] None \<and>
   approvalFromComments ([mkComment ''alice'' ''no''] @ [mkComment ''bob'' ''yes'']) [''alice'', ''bob''] 1 [] =
     Return approvalStatusDenied [] None"
proof -
  have h: "approvalFromComments [mkComment ''alice'' ''no''] [''alice'', ''bob''] 1 [] =
     Return approvalStatusDenied [] None" by code_simp
  with verdict_stable_under_newer_comments
    [of "[mkComment ''alice'' ''no'']" "[''alice'', ''bob'']" 1 "[]" approvalStatusDenied "[]" None
      "[mkComment ''bob'' ''yes'']"]
  show ?thesis by blast
qed


subsection \<open>The nil map\<close>

text \<open>
  C4. Let the allow-list be non-empty and let the loop reach a comment of a remaining
  approver whose body contains \<^verbatim>\<open>[\<close> and whose bracketed portion matches
  \<^verbatim>\<open>\[(.*)\]\<close>. Then the call panics with the store into the nil map
  \<^verbatim>\<open>validDeploymentNamesMap\<close>; it returns neither \<^verbatim>\<open>Approved\<close> nor the error
  of an unknown deployment name.
\<close>

theorem nil_map_store_panics:
  assumes "remainingApprovers pre A m D = Some rem"
    and "commentUser c \<in> set rem"
    and "D \<noteq> []"
    and "CHR ''['' \<in> set (GetBody c)"
    and "length (FindStringSubmatch (bracketedPortion (GetBody c))) = 2"
  shows "approvalFromComments (pre @ c # post) A m D = Panic AssignmentToEntryInNilMap"
proof -
  from assms(2-5) have "loopBody c rem A (threshold A m) D = Exit (Panic AssignmentToEntryInNilMap)"
    by (simp add: loopBody_cases)
  with assms(1) show ?thesis
    by (simp add: approvalFromComments_loop commentsLoop_append remainingApprovers_def)
qed

theorem nil_map_store_panics_witness:
  "approvalFromComments ([] @ mkComment ''alice'' ''approve[blue,green]'' # []) [''alice''] 1 [''blue'', ''green''] =
     Panic AssignmentToEntryInNilMap"
proof -
  have h1: "remainingApprovers [] [''alice''] 1 [''blue'', ''green''] = Some [''alice'']" by code_simp
  have h2: "commentUser (mkComment ''alice'' ''approve[blue,green]'') \<in> set [''alice'']" by code_simp
  have h3: "[''blue'', ''green''] \<noteq> []" by simp
  have h4: "CHR ''['' \<in> set (GetBody (mkComment ''alice'' ''approve[blue,green]''))" by code_simp
  have h5: "length (FindStringSubmatch (bracketedPortion (GetBody (mkComment ''alice'' ''approve[blue,green]'')))) = 2"
    by code_simp
  from nil_map_store_panics[OF h1 h2 h3 h4 h5] show ?thesis .
qed


subsection \<open>The examples of targeted approvals\<close>

text \<open>
  C3. With the allow-list \<^verbatim>\<open>blue, green\<close>, one approver and the threshold 1: the
  bodies \<^verbatim>\<open>approve[blue,green]\<close> and \<^verbatim>\<open>approve[blue,red]\<close> make the call panic
  with the store into the nil map (the property asks for \<^verbatim>\<open>Approved\<close> with the
  two names, and for the error of an unknown name); the unbalanced body
  \<^verbatim>\<open>approve[blue\<close> gives \<^verbatim>\<open>Pending\<close>, no names and the error of line 114.
\<close>

theorem deployment_names_examples:
  "approvalFromComments [mkComment ''alice'' ''approve[blue,green]''] [''alice''] 1 [''blue'', ''green''] =
     Panic AssignmentToEntryInNilMap \<and>
   approvalFromComments [mkComment ''alice'' ''approve[blue,red]''] [''alice''] 1 [''blue'', ''green''] =
     Panic AssignmentToEntryInNilMap \<and>
   approvalFromComments [mkComment ''alice'' ''approve[blue''] [''alice''] 1 [''blue'', ''green''] =
     Return approvalStatusPending [] (Some (Errorf ''errors.comment by not valid''))"
  by code_simp


subsection \<open>Denials\<close>

text \<open>
  C2, as stated, fails: with the approvers \<^verbatim>\<open>alice, bob\<close> and the threshold 2,
  after the counted approval of \<^verbatim>\<open>alice\<close> the quorum is not reached, and her denial
  is skipped: the result is \<^verbatim>\<open>Pending\<close>, not \<^verbatim>\<open>Denied\<close>.
\<close>

theorem denial_by_any_member_counterexample:
  "commentUser (mkComment ''alice'' ''deny'') \<in> set [''alice'', ''bob''] \<and>
   denialComment (mkComment ''alice'' ''deny'') \<and>
   approvalFromComments [mkComment ''alice'' ''approve''] [''alice'', ''bob''] 2 [] =
     Return approvalStatusPending [] None \<and>
   approvalFromComments [mkComment ''alice'' ''approve'', mkComment ''alice'' ''deny'']
     [''alice'', ''bob''] 2 [] = Return approvalStatusPending [] None"
  by code_simp

text \<open>
  C2, amended. If the loop reaches a denial comment whose author is still among the
  remaining approvers, the function returns \<^verbatim>\<open>Denied\<close> with no names and a nil
  error, whatever was counted before and whatever follows.
\<close>

theorem denial_by_remaining_approver_is_final:
  assumes "remainingApprovers pre A m D = Some rem"
    and "commentUser d \<in> set rem"
    and "denialComment d"
  shows "approvalFromComments (pre @ d # post) A m D = Return approvalStatusDenied [] None"
proof -
  from assms(2,3) have "loopBody d rem A (threshold A m) D = Exit (Return approvalStatusDenied [] None)"
    by (rule loopBody_denial)
  with assms(1) show ?thesis
    by (simp add: approvalFromComments_loop commentsLoop_append remainingApprovers_def)
qed

theorem denial_by_remaining_approver_is_final_witness:
  "approvalFromComments ([mkComment ''alice'' ''approve''] @ mkComment ''bob'' ''Deny.'' # [mkComment ''bob'' ''yes''])
     [''alice'', ''bob''] 2 [] = Return approvalStatusDenied [] None"
proof -
  have h1: "remainingApprovers [mkComment ''alice'' ''approve''] [''alice'', ''bob''] 2 [] = Some [''bob'']"
    by code_simp
  have h2: "commentUser (mkComment ''bob'' ''Deny.'') \<in> set [''bob'']" by code_simp
  have h3: "denialComment (mkComment ''bob'' ''Deny.'')" by code_simp
  from denial_by_remaining_approver_is_final[OF h1 h2 h3] show ?thesis .
qed

end
